theory Spec2Isabelle
  imports Main "HOL-Library.Word"
begin

unbundle bit_operations_syntax

section \<open>Machine types\<close>

text \<open>
  The simulator is built for an LP64 target: \<open>uint64_t\<close> and \<open>size_t\<close> are 64-bit
  unsigned words, \<open>uint32_t\<close> is a 32-bit unsigned word and \<open>int\<close> is a 32-bit
  two's complement integer.
\<close>

type_synonym u32 = "32 word"
type_synonym u64 = "64 word"

section \<open>The replacement generator \<open>lfsr_t\<close> (cachesim.h)\<close>

text \<open>\<open>lfsr_t() : reg(1) {}\<close>\<close>

definition lfsr_t :: u32 where
  "lfsr_t = 1"

text \<open>
  \<open>uint32_t next() { return reg = (reg>>1)^(-(reg&1) & 0xd0000001); }\<close>
  The result is the pair of the returned value and the register after the call.
\<close>

definition lfsr_next :: "u32 \<Rightarrow> u32 \<times> u32" where
  "lfsr_next reg =
     (let r = drop_bit 1 reg XOR (- (reg AND 1) AND 0xd0000001) in (r, r))"

text \<open>
  The generator in the words of the specification: shift right by one bit, XOR with the
  mask exactly when the bit shifted out was 1, store and return.
\<close>

definition lfsr_next_spec :: "u32 \<Rightarrow> u32 \<times> u32" where
  "lfsr_next_spec reg =
     (let shifted = drop_bit 1 reg;
          r = (if bit reg 0 then shifted XOR 0xD0000001 else shifted)
      in (r, r))"

section \<open>The cache engine \<open>cache_sim_t\<close> and \<open>fa_cache_sim_t\<close>\<close>

text \<open>
  How a run can stop other than by returning: \<open>help()\<close> prints the usage message and
  calls \<open>exit(1)\<close>; \<open>atoi\<close> on a value that \<open>int\<close> cannot hold is undefined;
  \<open>new uint64_t[n]\<close> throws when \<open>n\<close> elements exceed the largest object;
  \<open>x % 0\<close> traps; \<open>*p\<close> on a null pointer is undefined.
\<close>

datatype failure =
    Usage_Exit
  | Atoi_Out_Of_Range
  | Bad_Array_New_Length
  | Divide_By_Zero
  | Null_Dereference

text \<open>The dynamic type of an engine: \<open>cache_sim_t\<close> itself or \<open>fa_cache_sim_t\<close>.\<close>

datatype variant = Set_Associative | Fully_Associative

text \<open>
  The fields of \<open>cache_sim_t\<close>, in declaration order, then the one field
  \<open>fa_cache_sim_t\<close> adds: its \<open>std::map<uint64_t, uint64_t> tags\<close>, kept as the list
  of its (key, value) pairs in ascending key order, which is the map's iteration order.
  \<open>miss_handler\<close> is a non-owning pointer to another engine: \<open>None\<close> is the null
  pointer, \<open>Some h\<close> a handle of the next-level engine.
\<close>

record cache_sim_t =
  lfsr :: u32
  miss_handler :: "nat option"
  sets :: u64
  ways :: u64
  linesz :: u64
  idx_shift :: u64
  tags :: "u64 list"
  read_accesses :: u64
  read_misses :: u64
  bytes_read :: u64
  write_accesses :: u64
  write_misses :: u64
  bytes_written :: u64
  writebacks :: u64
  name :: string
  log :: bool
  fa_tags :: "(u64 \<times> u64) list"
  variant :: variant

text \<open>\<open>static const uint64_t VALID = 1ULL << 63; DIRTY = 1ULL << 62;\<close>\<close>

definition VALID :: u64 where
  "VALID = push_bit 63 1"

definition DIRTY :: u64 where
  "DIRTY = push_bit 62 1"

text \<open>
  What an engine does to the outside: a line on the error stream when logging is on,
  and the calls it makes on its \<open>miss_handler\<close>. The next-level engine is another
  object (chains are linear), so a call on it changes none of the caller's fields; the
  model records the calls in the order they are made.
\<close>

datatype event =
    Log_Miss string bool u64
  | Miss_Handler_Access u64 u64 bool
  | Miss_Handler_Clean_Invalidate u64 u64 bool bool

subsection \<open>Construction\<close>

text \<open>
  \<open>for (size_t x = linesz; x>1; x >>= 1) idx_shift++;\<close>
\<close>

function init_idx_shift :: "u64 \<Rightarrow> u64 \<Rightarrow> u64" where
  "init_idx_shift x shift =
     (if 1 < x then init_idx_shift (drop_bit 1 x) (shift + 1) else shift)"
  by pat_completeness auto
termination
proof (relation "measure (\<lambda>(x, _). unat x)")
  show "wf (measure (\<lambda>(x, _). unat x))"
    by simp
next
  fix x shift :: u64
  assume "1 < x"
  then have "0 < unat x"
    by (simp add: word_less_nat_alt)
  then have "unat x div 2 < unat x"
    by simp
  then show "((drop_bit 1 x, shift + 1), (x, shift)) \<in> measure (\<lambda>(x, _). unat x)"
    by (simp add: unat_drop_bit_eq drop_bit_eq_div unat_div)
qed

text \<open>
  \<open>new uint64_t[n]()\<close>: \<open>n\<close> zeroed entries. The largest object has
  \<open>PTRDIFF_MAX\<close> bytes, so a count of \<open>2^60\<close> entries or more throws
  \<open>std::bad_array_new_length\<close>. Exhaustion of the machine's memory below that bound
  is outside the model.
\<close>

definition new_array :: "u64 \<Rightarrow> failure + u64 list" where
  "new_array n =
     (if n < 2 ^ 60 then Inr (replicate (unat n) 0) else Inl Bad_Array_New_Length)"

text \<open>
  \<open>cache_sim_t::cache_sim_t(sets, ways, linesz, name)\<close> with \<open>init()\<close> inlined. The
  member \<open>lfsr\<close> is default-constructed; \<open>dyn\<close> is the class being constructed.
\<close>

definition init :: "variant \<Rightarrow> u64 \<Rightarrow> u64 \<Rightarrow> u64 \<Rightarrow> string \<Rightarrow> failure + cache_sim_t" where
  "init dyn sets' ways' linesz' name' =
     (if sets' = 0 \<or> sets' AND (sets' - 1) \<noteq> 0 then Inl Usage_Exit
      else if linesz' < 8 \<or> linesz' AND (linesz' - 1) \<noteq> 0 then Inl Usage_Exit
      else case new_array (sets' * ways') of
        Inl f \<Rightarrow> Inl f
      | Inr ts \<Rightarrow> Inr
         \<lparr> lfsr = lfsr_t, miss_handler = None,
           sets = sets', ways = ways', linesz = linesz',
           idx_shift = init_idx_shift linesz' 0,
           tags = ts,
           read_accesses = 0, read_misses = 0, bytes_read = 0,
           write_accesses = 0, write_misses = 0, bytes_written = 0,
           writebacks = 0,
           name = name', log = False,
           fa_tags = [], variant = dyn \<rparr>)"

text \<open>
  \<open>fa_cache_sim_t::fa_cache_sim_t(ways, linesz, name) : cache_sim_t(1, ways, linesz, name)\<close>
\<close>

definition fa_cache_sim_t :: "u64 \<Rightarrow> u64 \<Rightarrow> string \<Rightarrow> failure + cache_sim_t" where
  "fa_cache_sim_t ways' linesz' name' = init Fully_Associative 1 ways' linesz' name'"

definition cache_sim_t :: "u64 \<Rightarrow> u64 \<Rightarrow> u64 \<Rightarrow> string \<Rightarrow> failure + cache_sim_t" where
  "cache_sim_t sets' ways' linesz' name' = init Set_Associative sets' ways' linesz' name'"

text \<open>
  A C string is the list of its characters before the terminating NUL.
  \<open>strchr(s, c)\<close> returns the suffix that starts at the first \<open>c\<close>, or null.
\<close>

fun strchr :: "string \<Rightarrow> char \<Rightarrow> string option" where
  "strchr [] c = None"
| "strchr (x # xs) c = (if x = c then Some (x # xs) else strchr xs c)"

text \<open>
  \<open>atoi\<close> of the C library: white space is skipped, one sign is read, then decimal
  digits up to the first character that is none; no digit at all gives 0. A value that
  \<open>int\<close> cannot represent is undefined behaviour: \<open>None\<close>.
\<close>

definition isspace :: "char \<Rightarrow> bool" where
  "isspace c = (c \<in> set [CHR '' '', CHR 0x09, CHR 0x0A, CHR 0x0B, CHR 0x0C, CHR 0x0D])"

definition isdigit :: "char \<Rightarrow> bool" where
  "isdigit c = (48 \<le> (of_char c :: nat) \<and> (of_char c :: nat) \<le> 57)"

fun atoi_digits :: "int \<Rightarrow> string \<Rightarrow> int" where
  "atoi_digits acc [] = acc"
| "atoi_digits acc (c # cs) =
     (if isdigit c then atoi_digits (acc * 10 + (of_char c - 48)) cs else acc)"

definition atoi :: "string \<Rightarrow> int option" where
  "atoi s =
     (let s1 = dropWhile isspace s;
          neg = (case s1 of [] \<Rightarrow> False | c # _ \<Rightarrow> c = CHR ''-'');
          s2 = (case s1 of [] \<Rightarrow> [] | c # cs \<Rightarrow> if c = CHR ''-'' \<or> c = CHR ''+'' then cs else s1);
          v = atoi_digits 0 s2;
          r = (if neg then - v else v)
      in if - (2 ^ 31) \<le> r \<and> r < 2 ^ 31 then Some r else None)"

text \<open>
  \<open>cache_sim_t::construct(config, name)\<close>. \<open>wp\<close> and \<open>bp\<close> are the pointers after
  their increment; \<open>std::string(config, wp)\<close> is the part of \<open>config\<close> before \<open>wp\<close>,
  its colon included. An \<open>int\<close> becomes a \<open>size_t\<close> modulo \<open>2^64\<close>.
\<close>

definition construct :: "string \<Rightarrow> string \<Rightarrow> failure + cache_sim_t" where
  "construct config name' =
     (case strchr config CHR '':'' of
        None \<Rightarrow> Inl Usage_Exit
      | Some wp0 \<Rightarrow>
         (let wp = tl wp0 in
          case strchr wp CHR '':'' of
            None \<Rightarrow> Inl Usage_Exit
          | Some bp0 \<Rightarrow>
             (let bp = tl bp0 in
              case (atoi (take (length config - length wp) config),
                    atoi (take (length wp - length bp) wp),
                    atoi bp) of
                (Some s, Some w, Some l) \<Rightarrow>
                  (let sets' = (word_of_int s :: u64);
                       ways' = (word_of_int w :: u64);
                       linesz' = (word_of_int l :: u64)
                   in if 4 < ways' \<and> sets' = 1
                      then fa_cache_sim_t ways' linesz' name'
                      else cache_sim_t sets' ways' linesz' name')
              | _ \<Rightarrow> Inl Atoi_Out_Of_Range)))"

text \<open>
  The copy constructor \<open>cache_sim_t::cache_sim_t(const cache_sim_t& rhs)\<close>. Its
  initialiser list names \<open>sets\<close>, \<open>ways\<close>, \<open>linesz\<close>, \<open>idx_shift\<close>, \<open>name\<close> and
  \<open>log\<close>; \<open>lfsr\<close> is default-constructed; the body allocates \<open>tags\<close> and copies
  \<open>sets*ways\<close> entries. No other member is written: each keeps what the object's
  storage held before the call, which is the argument \<open>raw\<close>. The result is a
  \<open>cache_sim_t\<close>, whatever the dynamic type of \<open>rhs\<close>.
\<close>

definition cache_sim_t_copy :: "cache_sim_t \<Rightarrow> cache_sim_t \<Rightarrow> failure + cache_sim_t" where
  "cache_sim_t_copy raw rhs =
     (if sets rhs * ways rhs < 2 ^ 60
      then Inr (raw
         \<lparr> lfsr := lfsr_t,
           sets := sets rhs, ways := ways rhs, linesz := linesz rhs,
           idx_shift := idx_shift rhs,
           tags := take (unat (sets rhs * ways rhs)) (tags rhs),
           name := name rhs, log := False,
           fa_tags := [], variant := Set_Associative \<rparr>)
      else Inl Bad_Array_New_Length)"

text \<open>
  The implicit copy constructor of \<open>fa_cache_sim_t\<close>: the base class's copy
  constructor, then a copy of the map.
\<close>

definition fa_cache_sim_t_copy :: "cache_sim_t \<Rightarrow> cache_sim_t \<Rightarrow> failure + cache_sim_t" where
  "fa_cache_sim_t_copy raw rhs =
     (case cache_sim_t_copy raw rhs of
        Inl f \<Rightarrow> Inl f
      | Inr c \<Rightarrow> Inr (c\<lparr> fa_tags := fa_tags rhs, variant := Fully_Associative \<rparr>))"

definition set_miss_handler :: "nat option \<Rightarrow> cache_sim_t \<Rightarrow> cache_sim_t" where
  "set_miss_handler mh e = e\<lparr> miss_handler := mh \<rparr>"

definition set_log :: "bool \<Rightarrow> cache_sim_t \<Rightarrow> cache_sim_t" where
  "set_log l e = e\<lparr> log := l \<rparr>"

subsection \<open>Tag lookup\<close>

text \<open>
  A \<open>uint64_t*\<close> into a tag store: an entry of the array \<open>tags\<close>, by its index, or
  the value of a node of the map, by the node's key.
\<close>

datatype slot = Array_Entry nat | Map_Entry u64

text \<open>\<open>*p\<close> and \<open>*p = v\<close>. A pointer into the map is only used while its node exists.\<close>

definition slot_get :: "cache_sim_t \<Rightarrow> slot \<Rightarrow> u64" where
  "slot_get e p =
     (case p of
        Array_Entry i \<Rightarrow> tags e ! i
      | Map_Entry k \<Rightarrow> (case map_of (fa_tags e) k of Some v \<Rightarrow> v | None \<Rightarrow> 0))"

definition slot_set :: "slot \<Rightarrow> u64 \<Rightarrow> cache_sim_t \<Rightarrow> cache_sim_t" where
  "slot_set p v e =
     (case p of
        Array_Entry i \<Rightarrow> e\<lparr> tags := (tags e)[i := v] \<rparr>
      | Map_Entry k \<Rightarrow>
          e\<lparr> fa_tags := map (\<lambda>(k', v'). if k' = k then (k', v) else (k', v')) (fa_tags e) \<rparr>)"

text \<open>
  The loop of \<open>cache_sim_t::check_tag\<close>:
  \<open>for (size_t i = 0; i < ways; i++) if (tag == (tags[idx*ways + i] & ~DIRTY)) return &tags[idx*ways + i];\<close>
\<close>

function check_tag_ways :: "cache_sim_t \<Rightarrow> u64 \<Rightarrow> u64 \<Rightarrow> u64 \<Rightarrow> slot option" where
  "check_tag_ways e idx tag i =
     (if i < ways e
      then (if tag = tags e ! unat (idx * ways e + i) AND NOT DIRTY
            then Some (Array_Entry (unat (idx * ways e + i)))
            else check_tag_ways e idx tag (i + 1))
      else None)"
  by pat_completeness auto
termination
proof (relation "measure (\<lambda>(e, idx, tag, i). unat (ways e) - unat i)")
  show "wf (measure (\<lambda>(e, idx, tag, i). unat (ways e) - unat i))"
    by simp
next
  fix e :: cache_sim_t and idx tag i :: u64
  assume lt: "i < ways e"
  then have "unat i < unat (ways e)"
    by (simp add: word_less_nat_alt)
  moreover have "unat (ways e) < 2 ^ 64"
    using unsigned_less [of "ways e", where ?'a = nat] by simp
  ultimately have "unat i + unat (1 :: u64) < 2 ^ LENGTH(64)"
    by simp
  then have "unat (i + 1) = unat i + unat (1 :: u64)"
    by (simp only: unat_add_lem)
  with lt show "((e, idx, tag, i + 1), (e, idx, tag, i))
      \<in> measure (\<lambda>(e, idx, tag, i). unat (ways e) - unat i)"
    by (simp add: word_less_nat_alt)
qed

definition cache_sim_t_check_tag :: "cache_sim_t \<Rightarrow> u64 \<Rightarrow> slot option" where
  "cache_sim_t_check_tag e addr =
     (let idx = drop_bit (unat (idx_shift e)) addr AND (sets e - 1);
          tag = drop_bit (unat (idx_shift e)) addr OR VALID
      in check_tag_ways e idx tag 0)"

text \<open>
  \<open>fa_cache_sim_t::check_tag\<close>:
  \<open>auto it = tags.find(addr >> idx_shift); return it == tags.end() ? NULL : &it->second;\<close>
\<close>

definition fa_cache_sim_t_check_tag :: "cache_sim_t \<Rightarrow> u64 \<Rightarrow> slot option" where
  "fa_cache_sim_t_check_tag e addr =
     (case map_of (fa_tags e) (drop_bit (unat (idx_shift e)) addr) of
        None \<Rightarrow> None
      | Some _ \<Rightarrow> Some (Map_Entry (drop_bit (unat (idx_shift e)) addr)))"

text \<open>The virtual call \<open>check_tag(addr)\<close>.\<close>

definition check_tag :: "cache_sim_t \<Rightarrow> u64 \<Rightarrow> slot option" where
  "check_tag e addr =
     (case variant e of
        Set_Associative \<Rightarrow> cache_sim_t_check_tag e addr
      | Fully_Associative \<Rightarrow> fa_cache_sim_t_check_tag e addr)"

subsection \<open>Replacement\<close>

text \<open>
  \<open>cache_sim_t::victimize\<close>. \<open>lfsr.next()\<close> is a \<open>uint32_t\<close>, widened to \<open>size_t\<close>
  for the remainder by \<open>ways\<close>.
\<close>

definition cache_sim_t_victimize :: "cache_sim_t \<Rightarrow> u64 \<Rightarrow> failure + (u64 \<times> cache_sim_t)" where
  "cache_sim_t_victimize e addr =
     (let idx = drop_bit (unat (idx_shift e)) addr AND (sets e - 1);
          (r, reg) = lfsr_next (lfsr e)
      in if ways e = 0 then Inl Divide_By_Zero
         else
           (let way = ucast r mod ways e;
                victim = tags e ! unat (idx * ways e + way)
            in Inr (victim,
                 e\<lparr> lfsr := reg,
                    tags := (tags e)[unat (idx * ways e + way) :=
                               drop_bit (unat (idx_shift e)) addr OR VALID] \<rparr>)))"

text \<open>
  The operations of \<open>std::map\<close> that \<open>fa_cache_sim_t::victimize\<close> uses, on the
  ascending list of pairs: \<open>m[k] = v\<close>, and \<open>erase\<close> of the iterator \<open>n\<close> steps after
  \<open>begin()\<close>.
\<close>

fun map_assign :: "u64 \<Rightarrow> u64 \<Rightarrow> (u64 \<times> u64) list \<Rightarrow> (u64 \<times> u64) list" where
  "map_assign k v [] = [(k, v)]"
| "map_assign k v ((k', v') # m) =
     (if k < k' then (k, v) # (k', v') # m
      else if k = k' then (k, v) # m
      else (k', v') # map_assign k v m)"

definition map_erase_at :: "nat \<Rightarrow> (u64 \<times> u64) list \<Rightarrow> (u64 \<times> u64) list" where
  "map_erase_at n m = take n m @ drop (Suc n) m"

text \<open>
  \<open>fa_cache_sim_t::victimize\<close>. \<open>tags.size() == ways\<close> compares two \<open>size_t\<close>; a map
  has fewer than \<open>2^64\<close> nodes.
\<close>

definition fa_cache_sim_t_victimize :: "cache_sim_t \<Rightarrow> u64 \<Rightarrow> failure + (u64 \<times> cache_sim_t)" where
  "fa_cache_sim_t_victimize e addr =
     (let key = drop_bit (unat (idx_shift e)) addr in
      if length (fa_tags e) = unat (ways e)
      then
        (let (r, reg) = lfsr_next (lfsr e)
         in if ways e = 0 then Inl Divide_By_Zero
            else
              (let n = unat (ucast r mod ways e);
                   old_tag = snd (fa_tags e ! n);
                   m = map_erase_at n (fa_tags e)
               in Inr (old_tag, e\<lparr> lfsr := reg, fa_tags := map_assign key (key OR VALID) m \<rparr>)))
      else Inr (0, e\<lparr> fa_tags := map_assign key (key OR VALID) (fa_tags e) \<rparr>))"

text \<open>The virtual call \<open>victimize(addr)\<close>.\<close>

definition victimize :: "cache_sim_t \<Rightarrow> u64 \<Rightarrow> failure + (u64 \<times> cache_sim_t)" where
  "victimize e addr =
     (case variant e of
        Set_Associative \<Rightarrow> cache_sim_t_victimize e addr
      | Fully_Associative \<Rightarrow> fa_cache_sim_t_victimize e addr)"

subsection \<open>Access\<close>

text \<open>
  \<open>cache_sim_t::access\<close> after the return of the hit path: the miss counter, the log
  line, the eviction, the writeback and the fetch handed to \<open>miss_handler\<close>, and
  \<open>*check_tag(addr) |= DIRTY\<close> for a store.
\<close>

definition access_miss :: "cache_sim_t \<Rightarrow> u64 \<Rightarrow> bool \<Rightarrow> failure + (cache_sim_t \<times> event list)" where
  "access_miss e addr store =
     (let e3 = (if store then e\<lparr> write_misses := write_misses e + 1 \<rparr>
                else e\<lparr> read_misses := read_misses e + 1 \<rparr>);
          out_log = (if log e3 then [Log_Miss (name e3) store addr] else [])
      in case victimize e3 addr of
           Inl f \<Rightarrow> Inl f
         | Inr (victim, e4) \<Rightarrow>
            (let wb = (victim AND (VALID OR DIRTY) = (VALID OR DIRTY));
                 dirty_addr = push_bit (unat (idx_shift e4)) (victim AND NOT (VALID OR DIRTY));
                 out_wb = (if wb \<and> miss_handler e4 \<noteq> None
                           then [Miss_Handler_Access dirty_addr (linesz e4) True] else []);
                 e5 = (if wb then e4\<lparr> writebacks := writebacks e4 + 1 \<rparr> else e4);
                 out_fetch = (if miss_handler e5 \<noteq> None
                              then [Miss_Handler_Access (addr AND NOT (linesz e5 - 1)) (linesz e5) False]
                              else []);
                 out = out_log @ out_wb @ out_fetch
             in if store
                then (case check_tag e5 addr of
                        None \<Rightarrow> Inl Null_Dereference
                      | Some p \<Rightarrow> Inr (slot_set p (slot_get e5 p OR DIRTY) e5, out))
                else Inr (e5, out)))"

text \<open>\<open>cache_sim_t::access(addr, bytes, store)\<close>\<close>

definition access :: "cache_sim_t \<Rightarrow> u64 \<Rightarrow> u64 \<Rightarrow> bool \<Rightarrow> failure + (cache_sim_t \<times> event list)" where
  "access e addr bytes store =
     (let e1 = (if store then e\<lparr> write_accesses := write_accesses e + 1 \<rparr>
                else e\<lparr> read_accesses := read_accesses e + 1 \<rparr>);
          e2 = (if store then e1\<lparr> bytes_written := bytes_written e1 + bytes \<rparr>
                else e1\<lparr> bytes_read := bytes_read e1 + bytes \<rparr>)
      in case check_tag e2 addr of
           Some hit_way \<Rightarrow>
             Inr (if store then slot_set hit_way (slot_get e2 hit_way OR DIRTY) e2 else e2, [])
         | None \<Rightarrow> access_miss e2 addr store)"

subsection \<open>Clean and invalidate\<close>

text \<open>The body of the loop of \<open>cache_sim_t::clean_invalidate\<close>, for one \<open>cur_addr\<close>.\<close>

definition clean_invalidate_line :: "bool \<Rightarrow> bool \<Rightarrow> cache_sim_t \<Rightarrow> u64 \<Rightarrow> cache_sim_t" where
  "clean_invalidate_line clean inval e cur_addr =
     (case check_tag e cur_addr of
        None \<Rightarrow> e
      | Some hit_way \<Rightarrow>
         (let e1 = (if clean \<and> slot_get e hit_way AND DIRTY \<noteq> 0
                    then slot_set hit_way (slot_get e hit_way AND NOT DIRTY)
                           (e\<lparr> writebacks := writebacks e + 1 \<rparr>)
                    else e)
          in if inval then slot_set hit_way (slot_get e1 hit_way AND NOT VALID) e1 else e1))"

text \<open>
  \<open>while (cur_addr < end_addr) { ...; cur_addr += linesz; }\<close>
  The loop need not end for every value of the fields (\<open>linesz = 0\<close>): \<open>None\<close> is a
  loop that runs forever.
\<close>

partial_function (option) clean_invalidate_loop ::
    "bool \<Rightarrow> bool \<Rightarrow> u64 \<Rightarrow> cache_sim_t \<Rightarrow> u64 \<Rightarrow> cache_sim_t option" where
  "clean_invalidate_loop clean inval end_addr e cur_addr =
     (if cur_addr < end_addr
      then clean_invalidate_loop clean inval end_addr
             (clean_invalidate_line clean inval e cur_addr) (cur_addr + linesz e)
      else Some e)"

declare clean_invalidate_loop.simps [code]

text \<open>\<open>cache_sim_t::clean_invalidate(addr, bytes, clean, inval)\<close>\<close>

definition clean_invalidate ::
    "cache_sim_t \<Rightarrow> u64 \<Rightarrow> u64 \<Rightarrow> bool \<Rightarrow> bool \<Rightarrow> (cache_sim_t \<times> event list) option" where
  "clean_invalidate e addr bytes clean inval =
     (let start_addr = addr AND NOT (linesz e - 1);
          end_addr = (addr + bytes + linesz e - 1) AND NOT (linesz e - 1)
      in case clean_invalidate_loop clean inval end_addr e start_addr of
           None \<Rightarrow> None
         | Some e' \<Rightarrow>
             Some (e', if miss_handler e' \<noteq> None
                       then [Miss_Handler_Clean_Invalidate addr bytes clean inval] else []))"

subsection \<open>Sequences of calls\<close>

text \<open>
  What a harness can do with an engine it has constructed: the public member functions
  that change it. A run stops with \<open>None\<close> at the first call that fails or does
  not return.
\<close>

datatype operation =
    Access u64 u64 bool
  | Clean_Invalidate u64 u64 bool bool
  | Set_Miss_Handler "nat option"
  | Set_Log bool

fun apply_operation :: "cache_sim_t \<Rightarrow> operation \<Rightarrow> cache_sim_t option" where
  "apply_operation e (Access addr bytes store) =
     (case access e addr bytes store of Inl _ \<Rightarrow> None | Inr (e', _) \<Rightarrow> Some e')"
| "apply_operation e (Clean_Invalidate addr bytes clean inval) =
     (case clean_invalidate e addr bytes clean inval of None \<Rightarrow> None | Some (e', _) \<Rightarrow> Some e')"
| "apply_operation e (Set_Miss_Handler mh) = Some (set_miss_handler mh e)"
| "apply_operation e (Set_Log l) = Some (set_log l e)"

fun run :: "cache_sim_t \<Rightarrow> operation list \<Rightarrow> cache_sim_t option" where
  "run e [] = Some e"
| "run e (op # ops) = (case apply_operation e op of None \<Rightarrow> None | Some e' \<Rightarrow> run e' ops)"

subsection \<open>Notions of the specification\<close>

text \<open>A power of two, as the specification asks of \<open>sets\<close> and \<open>lineSize\<close>.\<close>

definition is_pow2 :: "u64 \<Rightarrow> bool" where
  "is_pow2 x = (\<exists>k \<in> {0..<64}. x = 2 ^ k)"

text \<open>
  The geometry of an engine that \<open>construct\<close> returned with \<open>ways\<close> at least 1, kept
  by every operation: \<open>sets\<close> is a power of two, \<open>linesz\<close> is \<open>2^idx_shift\<close> with
  \<open>idx_shift\<close> from 3 to 63, the array holds \<open>sets*ways\<close> entries, and the map is in
  strictly ascending key order with at most \<open>ways\<close> nodes.
\<close>

definition well_formed :: "cache_sim_t \<Rightarrow> bool" where
  "well_formed e =
     (is_pow2 (sets e) \<and> ways e \<noteq> 0 \<and>
      3 \<le> unat (idx_shift e) \<and> unat (idx_shift e) < 64 \<and>
      linesz e = 2 ^ unat (idx_shift e) \<and>
      unat (sets e) * unat (ways e) < 2 ^ 64 \<and>
      length (tags e) = unat (sets e) * unat (ways e) \<and>
      sorted_wrt (<) (map fst (fa_tags e)) \<and>
      length (fa_tags e) \<le> unat (ways e))"

text \<open>The values \<open>cur_addr\<close> takes in the loop of \<open>clean_invalidate\<close>.\<close>

definition line_addrs :: "u64 \<Rightarrow> u64 \<Rightarrow> u64 \<Rightarrow> u64 list" where
  "line_addrs start_addr end_addr sz =
     map (\<lambda>i. start_addr + of_nat i * sz) [0..<(unat end_addr - unat start_addr) div unat sz]"

text \<open>
  The two tests of the loop body of \<open>clean_invalidate\<close> at one address:
  \<open>hit_way != NULL\<close> and \<open>*hit_way & DIRTY\<close>.
\<close>

definition hit_dirty :: "cache_sim_t \<Rightarrow> u64 \<Rightarrow> bool" where
  "hit_dirty e a =
     (case check_tag e a of None \<Rightarrow> False | Some p \<Rightarrow> slot_get e p AND DIRTY \<noteq> 0)"

text \<open>
  A resident dirty line, in the words of the specification: the lookup finds an entry for
  the line, and the entry has VALID set (an entry with VALID unset is empty) and DIRTY
  set.
\<close>

definition resident_dirty :: "cache_sim_t \<Rightarrow> u64 \<Rightarrow> bool" where
  "resident_dirty e a =
     (case check_tag e a of
        None \<Rightarrow> False
      | Some p \<Rightarrow> slot_get e p AND VALID \<noteq> 0 \<and> slot_get e p AND DIRTY \<noteq> 0)"

subsection \<open>Two engines for the concrete scenarios\<close>

text \<open>What \<open>construct\<close> returns for \<open>"4:2:64"\<close> and for \<open>"1:8:64"\<close>.\<close>

definition engine_4_2_64 :: cache_sim_t where
  "engine_4_2_64 =
     \<lparr> lfsr = 1, miss_handler = None, sets = 4, ways = 2, linesz = 64, idx_shift = 6,
       tags = [0, 0, 0, 0, 0, 0, 0, 0],
       read_accesses = 0, read_misses = 0, bytes_read = 0,
       write_accesses = 0, write_misses = 0, bytes_written = 0, writebacks = 0,
       name = ''D$'', log = False, fa_tags = [], variant = Set_Associative \<rparr>"

definition engine_1_8_64 :: cache_sim_t where
  "engine_1_8_64 =
     \<lparr> lfsr = 1, miss_handler = None, sets = 1, ways = 8, linesz = 64, idx_shift = 6,
       tags = [0, 0, 0, 0, 0, 0, 0, 0],
       read_accesses = 0, read_misses = 0, bytes_read = 0,
       write_accesses = 0, write_misses = 0, bytes_written = 0, writebacks = 0,
       name = ''D$'', log = False, fa_tags = [], variant = Fully_Associative \<rparr>"

text \<open>The engine of \<open>"1:8:64"\<close> after reads of eight distinct lines: the map is full.\<close>

definition engine_1_8_64_full :: cache_sim_t where
  "engine_1_8_64_full =
     engine_1_8_64\<lparr> read_accesses := 8, read_misses := 8, bytes_read := 8,
       fa_tags := [(0, 0x8000000000000000), (1, 0x8000000000000001), (2, 0x8000000000000002),
                   (3, 0x8000000000000003), (4, 0x8000000000000004), (5, 0x8000000000000005),
                   (6, 0x8000000000000006), (7, 0x8000000000000007)] \<rparr>"

text \<open>
  The engine of \<open>"4:2:64"\<close> with a next level linked and logging on, after a store to
  address 0: way 1 of set 0 holds line 0, valid and dirty.
\<close>

definition engine_4_2_64_dirty :: cache_sim_t where
  "engine_4_2_64_dirty =
     engine_4_2_64\<lparr> lfsr := 0xD0000001, miss_handler := Some 1,
       tags := [0, 0xC000000000000000, 0, 0, 0, 0, 0, 0],
       write_accesses := 1, write_misses := 1, bytes_written := 1, log := True \<rparr>"

text \<open>
  The engine of \<open>"4:2:64"\<close> after a store of one byte at \<open>0xFFFFFFFFFFFFFFC1\<close>: way 1 of
  set 3 holds the last line of the address space, valid and dirty.
\<close>

definition engine_4_2_64_top :: cache_sim_t where
  "engine_4_2_64_top =
     engine_4_2_64\<lparr> lfsr := 0xD0000001,
       tags := [0, 0, 0, 0, 0, 0, 0, 0xC3FFFFFFFFFFFFFF],
       write_accesses := 1, write_misses := 1, bytes_written := 1 \<rparr>"

text \<open>
  The engine of \<open>"1:8:64"\<close> after a store of one byte at address 0 and
  \<open>clean_invalidate(0, 1, false, true)\<close>: the node of line 0 is still in the map, with
  VALID clear and DIRTY set.
\<close>

definition engine_1_8_64_invalidated :: cache_sim_t where
  "engine_1_8_64_invalidated =
     engine_1_8_64\<lparr> write_accesses := 1, write_misses := 1, bytes_written := 1,
       fa_tags := [(0, 0x4000000000000000)] \<rparr>"

text \<open>
  Two notions used to state what \<open>clean_invalidate\<close> does to an entry. \<open>cleared clean inval v\<close>
  is the value the loop body leaves in an entry holding \<open>v\<close>: \<open>*hit_way &= ~DIRTY\<close> when
  \<open>clean\<close> (a no-op when DIRTY is not set), then \<open>*hit_way &= ~VALID\<close> when \<open>inval\<close>.
  \<open>slot_line e p\<close> is the line number an entry stands for: the tag bits of the array entry,
  or the key of the map entry.
\<close>

definition cleared :: "bool \<Rightarrow> bool \<Rightarrow> u64 \<Rightarrow> u64" where
  "cleared clean inval v =
     (let v1 = (if clean then v AND NOT DIRTY else v)
      in if inval then v1 AND NOT VALID else v1)"

definition slot_line :: "cache_sim_t \<Rightarrow> slot \<Rightarrow> u64" where
  "slot_line e p =
     (case p of
        Array_Entry i \<Rightarrow> tags e ! i AND NOT (VALID OR DIRTY)
      | Map_Entry k \<Rightarrow> k)"

section \<open>Words, powers of two and tag bits\<close>

lemma nat_and_pred_zero:
  fixes n :: nat
  shows "0 < n \<Longrightarrow> n AND (n - 1) = 0 \<Longrightarrow> \<exists>k. n = 2 ^ k"
proof (induction n rule: less_induct)
  case (less n)
  show ?case
  proof (cases "odd n")
    case True
    then obtain m where m: "n = 2 * m + 1"
      by (auto elim: oddE)
    have "(2 * m + 1) AND (2 * m) = 2 * m"
      by (subst and_rec) simp
    with less.prems m have "m = 0"
      by simp
    with m have "n = 2 ^ 0"
      by simp
    then show ?thesis
      by blast
  next
    case False
    then obtain m where m: "n = 2 * m"
      by (auto elim: evenE)
    with less.prems have mpos: "0 < m"
      by simp
    have "(2 * m) AND (2 * m - 1) = 2 * (m AND (m - 1))"
    proof -
      have "(2 * m - 1) div 2 = m - 1"
        using mpos by presburger
      then show ?thesis
        by (subst and_rec) simp
    qed
    with less.prems m have "m AND (m - 1) = 0"
      by simp
    moreover have "m < n"
      using m mpos by simp
    ultimately obtain k where "m = 2 ^ k"
      using less.IH mpos by blast
    with m have "n = 2 ^ Suc k"
      by simp
    then show ?thesis
      by blast
  qed
qed


lemma unat_lt_2p64: "unat (x :: u64) < 2 ^ 64"
  using unsigned_less [of x, where ?'a = nat] by simp

lemma unat_pow2:
  assumes "k < 64"
  shows "unat (2 ^ k :: u64) = 2 ^ k"
proof -
  have "(2::nat) ^ k < 2 ^ 64"
    using assms by (rule power_strict_increasing) simp
  then have "(2::nat) ^ k mod 2 ^ LENGTH(64) = 2 ^ k"
    by simp
  moreover have "(2 ^ k :: u64) = of_nat (2 ^ k)"
    by simp
  ultimately show ?thesis
    by (simp only: unat_of_nat)
qed

lemma pow2_and_pred:
  assumes "k < 64"
  shows "(2 ^ k :: u64) \<noteq> 0 \<and> (2 ^ k :: u64) AND (2 ^ k - 1) = 0"
proof
  show "(2 ^ k :: u64) \<noteq> 0"
    using assms by simp
  have "(2 ^ k :: u64) AND mask k = 0"
    by (rule bit_word_eqI) (auto simp: bit_simps)
  then show "(2 ^ k :: u64) AND (2 ^ k - 1) = 0"
    by (simp add: mask_eq_decr_exp)
qed

lemma and_pred_pow2:
  fixes x :: u64
  assumes "x \<noteq> 0" and "x AND (x - 1) = 0"
  shows "is_pow2 x"
proof -
  have pos: "0 < unat x"
    using assms(1) by (simp add: unat_gt_0)
  have "unat (x AND (x - 1)) = unat x AND (unat x - 1)"
    using assms(1) by (simp add: unsigned_and_eq unat_minus_one)
  with assms(2) have "unat x AND (unat x - 1) = 0"
    by simp
  with pos obtain k where k: "unat x = 2 ^ k"
    using nat_and_pred_zero by blast
  have "\<not> 64 \<le> k"
  proof
    assume "64 \<le> k"
    then have "(2::nat) ^ 64 \<le> 2 ^ k"
      by (rule power_increasing) simp
    with k unat_lt_2p64 [of x] show False
      by simp
  qed
  then have "k < 64"
    by simp
  moreover have "x = 2 ^ k"
  proof -
    have "x = of_nat (unat x)"
      by simp
    also have "\<dots> = of_nat (2 ^ k)"
      by (simp only: k)
    finally show ?thesis
      by simp
  qed
  ultimately show ?thesis
    by (auto simp: is_pow2_def)
qed

lemma pow2_test_iff: "(x \<noteq> 0 \<and> x AND (x - 1) = 0) = is_pow2 x"
  using and_pred_pow2 pow2_and_pred by (auto simp: is_pow2_def)

lemma init_idx_shift_pow2:
  "k < 64 \<Longrightarrow> init_idx_shift (2 ^ k) acc = acc + of_nat k"
proof (induction k arbitrary: acc)
  case 0
  then show ?case by simp
next
  case (Suc k)
  have "unat (2 ^ Suc k :: u64) = 2 ^ Suc k"
    using Suc.prems by (rule unat_pow2)
  moreover have "(1::nat) < 2 ^ Suc k"
    by (rule one_less_power) simp_all
  ultimately have gt: "1 < (2 ^ Suc k :: u64)"
    by (simp only: word_less_nat_alt unat_1)
  have "drop_bit 1 (2 ^ Suc k :: u64) = 2 ^ k"
    using Suc.prems by (simp add: drop_bit_exp_eq del: power_Suc)
  with gt Suc show ?case
    by (subst init_idx_shift.simps) (simp add: algebra_simps)
qed

lemma bit_VALID: "bit VALID n = (n = 63)"
  unfolding VALID_def push_bit_of_1 bit_exp_iff by auto

lemma bit_DIRTY: "bit DIRTY n = (n = 62)"
  unfolding DIRTY_def push_bit_of_1 bit_exp_iff by auto

lemma tag_bits_clear:
  fixes a :: u64
  assumes "2 \<le> s"
  shows "\<not> bit (drop_bit s a) 62 \<and> \<not> bit (drop_bit s a) 63"
proof -
  have "\<not> bit a (s + 62)" "\<not> bit a (s + 63)"
    using assms by (auto dest: bit_imp_le_length)
  then show ?thesis
    by (simp add: bit_drop_bit_eq)
qed

lemma tag_flags_clear:
  fixes a :: u64
  assumes "2 \<le> s"
  shows "drop_bit s a AND (VALID OR DIRTY) = 0"
proof (rule bit_word_eqI)
  fix n
  assume "n < LENGTH(64)"
  show "bit (drop_bit s a AND (VALID OR DIRTY)) n = bit (0 :: u64) n"
    using tag_bits_clear [OF assms, of a]
    by (auto simp: bit_and_iff bit_or_iff bit_VALID bit_DIRTY)
qed

lemma or_VALID_inject:
  fixes x y :: u64
  assumes "\<not> bit x 63" and "\<not> bit y 63"
  shows "(x OR VALID = y OR VALID) = (x = y)"
proof
  assume eq: "x OR VALID = y OR VALID"
  show "x = y"
  proof (rule bit_word_eqI)
    fix n
    assume "n < LENGTH(64)"
    have "bit (x OR VALID) n = bit (y OR VALID) n"
      by (simp only: eq)
    with assms show "bit x n = bit y n"
      by (cases "n = 63") (auto simp: bit_or_iff bit_VALID)
  qed
qed simp

lemma line_mask: "s < 64 \<Longrightarrow> (2 ^ s :: u64) - 1 = mask s"
  by (simp add: mask_eq_decr_exp)

lemma same_line_iff:
  fixes a b :: u64
  shows "(drop_bit s a = drop_bit s b) = (a AND NOT (mask s) = b AND NOT (mask s))"
proof
  assume eq: "drop_bit s a = drop_bit s b"
  show "a AND NOT (mask s) = b AND NOT (mask s)"
  proof (rule bit_word_eqI)
    fix n
    assume n: "n < LENGTH(64)"
    show "bit (a AND NOT (mask s)) n = bit (b AND NOT (mask s)) n"
    proof (cases "s \<le> n")
      case True
      have "bit (drop_bit s a) (n - s) = bit (drop_bit s b) (n - s)"
        by (simp only: eq)
      with True have "bit a n = bit b n"
        by (simp add: bit_drop_bit_eq)
      then show ?thesis
        by (simp add: bit_and_iff)
    next
      case False
      then show ?thesis
        by (simp add: bit_and_iff bit_not_iff bit_mask_iff)
    qed
  qed
next
  assume eq: "a AND NOT (mask s) = b AND NOT (mask s)"
  show "drop_bit s a = drop_bit s b"
  proof (rule bit_word_eqI)
    fix n
    assume n: "n < LENGTH(64)"
    have "bit (a AND NOT (mask s)) (n + s) = bit (b AND NOT (mask s)) (n + s)"
      by (simp only: eq)
    then have "bit a (n + s) = bit b (n + s)"
      by (auto simp: bit_and_iff bit_not_iff bit_mask_iff dest: bit_imp_le_length)
    then show "bit (drop_bit s a) n = bit (drop_bit s b) n"
      by (simp add: bit_drop_bit_eq add.commute)
  qed
qed

section \<open>Evaluation on the example engines\<close>

lemma replicate_8: "replicate 8 x = [x, x, x, x, x, x, x, x]"
  by (simp add: numeral_eq_Suc)

lemma construct_4_2_64: "construct ''4:2:64'' ''D$'' = Inr engine_4_2_64"
  by (simp add: construct_def atoi_def isspace_def isdigit_def cache_sim_t_def init_def
      new_array_def replicate_8 lfsr_t_def engine_4_2_64_def Let_def)

lemma construct_1_8_64: "construct ''1:8:64'' ''D$'' = Inr engine_1_8_64"
  by (simp add: construct_def atoi_def isspace_def isdigit_def fa_cache_sim_t_def init_def
      new_array_def replicate_8 lfsr_t_def engine_1_8_64_def Let_def)

lemmas eval_defs =
  access_def access_miss_def check_tag_def victimize_def cache_sim_t_check_tag_def
  fa_cache_sim_t_check_tag_def cache_sim_t_victimize_def fa_cache_sim_t_victimize_def
  slot_get_def slot_set_def lfsr_next_def VALID_def DIRTY_def map_erase_at_def
  clean_invalidate_def clean_invalidate_line_def Let_def

lemma run_dirty_4_2_64:
  "run engine_4_2_64 [Set_Miss_Handler (Some 1), Set_Log True, Access 0 1 True] =
     Some engine_4_2_64_dirty"
  by (simp add: eval_defs engine_4_2_64_def engine_4_2_64_dirty_def check_tag_ways.simps
      set_miss_handler_def set_log_def)

lemma run_fill_1_8_64:
  "run engine_1_8_64 [Access 0 1 False, Access 64 1 False, Access 128 1 False, Access 192 1 False,
       Access 256 1 False, Access 320 1 False, Access 384 1 False, Access 448 1 False] =
     Some engine_1_8_64_full"
  by (simp add: eval_defs engine_1_8_64_def engine_1_8_64_full_def)

section \<open>Construction\<close>

lemma pow2_ge_8:
  assumes "k < 64" and "8 \<le> (2 ^ k :: u64)"
  shows "3 \<le> k"
proof (rule ccontr)
  assume "\<not> 3 \<le> k"
  then have "(2::nat) ^ k \<le> 2 ^ 2"
    by (intro power_increasing) simp_all
  moreover have "unat (8 :: u64) \<le> unat (2 ^ k :: u64)"
    using assms(2) by (simp only: word_le_nat_alt)
  ultimately show False
    using unat_pow2 [OF assms(1)] by simp
qed

lemma unat_of_nat_lt_64: "k < 64 \<Longrightarrow> unat (of_nat k :: u64) = k"
  by (simp add: unat_of_nat)

lemma init_Inr:
  assumes "init dyn s w l n = Inr e"
  shows "sets e = s \<and> ways e = w \<and> linesz e = l \<and> variant e = dyn \<and>
         idx_shift e = init_idx_shift l 0 \<and> fa_tags e = [] \<and>
         tags e = replicate (unat (s * w)) 0 \<and> s * w < 2 ^ 60 \<and>
         is_pow2 s \<and> is_pow2 l \<and> 8 \<le> l"
proof -
  have s: "s \<noteq> 0 \<and> s AND (s - 1) = 0"
    using assms by (simp add: init_def split: if_splits)
  have l: "\<not> l < 8 \<and> l \<noteq> 0 \<and> l AND (l - 1) = 0"
    using assms by (auto simp add: init_def split: if_splits)
  have a: "s * w < 2 ^ 60"
    using assms s l by (simp add: init_def new_array_def split: if_splits)
  have "e = \<lparr> lfsr = lfsr_t, miss_handler = None,
           sets = s, ways = w, linesz = l,
           idx_shift = init_idx_shift l 0,
           tags = replicate (unat (s * w)) 0,
           read_accesses = 0, read_misses = 0, bytes_read = 0,
           write_accesses = 0, write_misses = 0, bytes_written = 0,
           writebacks = 0,
           name = n, log = False,
           fa_tags = [], variant = dyn \<rparr>"
    using assms s l a by (simp add: init_def new_array_def)
  then have "sets e = s \<and> ways e = w \<and> linesz e = l \<and> variant e = dyn \<and>
         idx_shift e = init_idx_shift l 0 \<and> fa_tags e = [] \<and>
         tags e = replicate (unat (s * w)) 0"
    by simp
  moreover have "is_pow2 s" "is_pow2 l"
    using s l pow2_test_iff by blast+
  moreover have "8 \<le> l"
    using l by (simp add: not_less)
  ultimately show ?thesis
    using a by blast
qed

lemma init_geometry:
  assumes "init dyn s w l n = Inr e"
  shows "3 \<le> unat (idx_shift e) \<and> unat (idx_shift e) < 64 \<and>
         linesz e = 2 ^ unat (idx_shift e)"
proof -
  from assms have l: "linesz e = l" "idx_shift e = init_idx_shift l 0" "is_pow2 l" "8 \<le> l"
    using init_Inr by blast+
  from l(3) obtain k where k: "k < 64" "l = 2 ^ k"
    by (auto simp: is_pow2_def)
  with l(4) have "3 \<le> k"
    using pow2_ge_8 by blast
  moreover have "idx_shift e = of_nat k"
    using l(2) k init_idx_shift_pow2 [of k 0] by simp
  then have "unat (idx_shift e) = k"
    using k(1) by (simp add: unat_of_nat_lt_64)
  ultimately show ?thesis
    using k l(1) by simp
qed

lemma construct_Inr:
  assumes "construct config n = Inr e"
  shows "\<exists>s w l. - (2 ^ 31) \<le> s \<and> s < 2 ^ 31 \<and> - (2 ^ 31) \<le> w \<and> w < 2 ^ 31 \<and>
           init (if 4 < (word_of_int w :: u64) \<and> (word_of_int s :: u64) = 1
                 then Fully_Associative else Set_Associative)
             (word_of_int s) (word_of_int w) (word_of_int l) n = Inr e"
proof -
  from assms obtain wp0 where wp0: "strchr config CHR '':'' = Some wp0"
    by (auto simp: construct_def split: option.splits)
  with assms obtain bp0 where bp0: "strchr (tl wp0) CHR '':'' = Some bp0"
    by (auto simp: construct_def Let_def split: option.splits)
  let ?a = "atoi (take (length config - length (tl wp0)) config)"
  let ?b = "atoi (take (length (tl wp0) - length (tl bp0)) (tl wp0))"
  let ?c = "atoi (tl bp0)"
  from assms wp0 bp0 obtain s w l where swl: "?a = Some s" "?b = Some w" "?c = Some l"
    by (auto simp: construct_def Let_def split: option.splits)
  have rng: "- (2 ^ 31) \<le> s \<and> s < 2 ^ 31" "- (2 ^ 31) \<le> w \<and> w < 2 ^ 31"
    using swl(1,2) by (auto simp: atoi_def Let_def split: if_splits)
  have "init (if 4 < (word_of_int w :: u64) \<and> (word_of_int s :: u64) = 1
                 then Fully_Associative else Set_Associative)
             (word_of_int s) (word_of_int w) (word_of_int l) n = Inr e"
    using assms wp0 bp0 swl
    by (auto simp: construct_def Let_def fa_cache_sim_t_def cache_sim_t_def)
  with rng show ?thesis
    by blast
qed

lemma construct_variant:
  assumes "construct config n = Inr e"
  shows "(variant e = Fully_Associative) = (4 < ways e \<and> sets e = 1)"
proof -
  from assms obtain s w l where
    i: "init (if 4 < (word_of_int w :: u64) \<and> (word_of_int s :: u64) = 1
                 then Fully_Associative else Set_Associative)
             (word_of_int s) (word_of_int w) (word_of_int l) n = Inr e"
    using construct_Inr by blast
  from init_Inr [OF i] show ?thesis
    by auto
qed

section \<open>Lookup in the tag array\<close>

declare check_tag_ways.simps [simp del]

lemma set_index_less:
  fixes s x :: u64
  assumes "s \<noteq> 0"
  shows "x AND (s - 1) < s"
proof -
  have "x AND (s - 1) \<le> s - 1"
    by (rule word_and_le1)
  then have "unat (x AND (s - 1)) \<le> unat (s - 1)"
    by (simp only: word_le_nat_alt)
  moreover have "unat (s - 1) < unat s"
    using assms by (rule measure_unat)
  ultimately show ?thesis
    by (simp add: word_less_nat_alt)
qed

lemma way_less:
  fixes w :: u64
  assumes "w \<noteq> 0"
  shows "x mod w < w"
  using assms by (simp add: word_mod_less_divisor word_neq_0_conv)

lemma entry_index:
  fixes S W idx k :: u64
  assumes "unat S * unat W < 2 ^ 64" and "idx < S" and "k < W"
  shows "unat (idx * W + k) = unat idx * unat W + unat k"
    and "unat idx * unat W + unat k < unat S * unat W"
proof -
  have i: "unat idx < unat S" and k: "unat k < unat W"
    using assms(2,3) by (simp_all only: word_less_nat_alt)
  have "unat idx * unat W + unat k < unat idx * unat W + unat W"
    using k by simp
  also have "\<dots> = Suc (unat idx) * unat W"
    by simp
  also have "\<dots> \<le> unat S * unat W"
    using i by (intro mult_le_mono1) simp
  finally show lt: "unat idx * unat W + unat k < unat S * unat W" .
  with assms(1) have b: "unat idx * unat W + unat k < 2 ^ LENGTH(64)"
    by simp
  then have "unat idx * unat W < 2 ^ LENGTH(64)"
    by simp
  then have m: "unat (idx * W) = unat idx * unat W"
    by (simp only: unat_mult_lem)
  with b have "unat (idx * W) + unat k < 2 ^ LENGTH(64)"
    by simp
  then have "unat (idx * W + k) = unat (idx * W) + unat k"
    by (simp only: unat_add_lem)
  with m show "unat (idx * W + k) = unat idx * unat W + unat k"
    by simp
qed

lemma entry_index_inject:
  fixes S W idx k k' :: u64
  assumes "unat S * unat W < 2 ^ 64" and "idx < S" and "k < W" and "k' < W"
    and "unat (idx * W + k) = unat (idx * W + k')"
  shows "k = k'"
  using assms entry_index(1) [OF assms(1,2,3)] entry_index(1) [OF assms(1,2,4)]
  by (simp add: word_unat_eq_iff)


lemma succ_le_iff:
  fixes i w k :: u64
  assumes "i < w"
  shows "(i + 1 \<le> k) = (i < k)"
proof -
  have "i \<noteq> - 1"
    using assms by (metis word_order.extremum_strict)
  then show ?thesis
    by (simp add: inc_less_eq_iff)
qed

lemma forall_from:
  fixes i w :: u64
  assumes "i < w"
  shows "(\<forall>k. i \<le> k \<and> k < w \<longrightarrow> Q k) = (Q i \<and> (\<forall>k. i + 1 \<le> k \<and> k < w \<longrightarrow> Q k))"
proof -
  have *: "(i \<le> k) = (i = k \<or> i + 1 \<le> k)" for k
    using succ_le_iff [OF assms, of k] by force
  show ?thesis
    unfolding * using assms by blast
qed

lemma check_tag_ways_None_iff:
  "(check_tag_ways e idx tag i = None) =
     (\<forall>k. i \<le> k \<and> k < ways e \<longrightarrow> tag \<noteq> tags e ! unat (idx * ways e + k) AND NOT DIRTY)"
proof (induction e idx tag i rule: check_tag_ways.induct)
  case (1 e idx tag i)
  show ?case
  proof (cases "i < ways e")
    case False
    then show ?thesis
      by (subst check_tag_ways.simps) auto
  next
    case lt: True
    show ?thesis
    proof (cases "tag = tags e ! unat (idx * ways e + i) AND NOT DIRTY")
      case True
      with lt show ?thesis
        by (subst check_tag_ways.simps) auto
    next
      case False
      have "(check_tag_ways e idx tag i = None) = (check_tag_ways e idx tag (i + 1) = None)"
        using lt False by (subst check_tag_ways.simps) simp
      also have "\<dots> = (\<forall>k. i + 1 \<le> k \<and> k < ways e \<longrightarrow>
                          tag \<noteq> tags e ! unat (idx * ways e + k) AND NOT DIRTY)"
        using "1.IH" [OF lt False] .
      also have "\<dots> = (\<forall>k. i \<le> k \<and> k < ways e \<longrightarrow>
                          tag \<noteq> tags e ! unat (idx * ways e + k) AND NOT DIRTY)"
        using False
        by (simp only: forall_from [OF lt, of "\<lambda>k. tag \<noteq> tags e ! unat (idx * ways e + k) AND NOT DIRTY"])
          simp
      finally show ?thesis .
    qed
  qed
qed

lemma check_tag_ways_Some:
  assumes "check_tag_ways e idx tag i = Some p"
  shows "\<exists>k. i \<le> k \<and> k < ways e \<and> p = Array_Entry (unat (idx * ways e + k)) \<and>
             tag = tags e ! unat (idx * ways e + k) AND NOT DIRTY \<and>
             (\<forall>k'. i \<le> k' \<and> k' < k \<longrightarrow> tag \<noteq> tags e ! unat (idx * ways e + k') AND NOT DIRTY)"
  using assms
proof (induction e idx tag i rule: check_tag_ways.induct)
  case (1 e idx tag i)
  have lt: "i < ways e"
    using "1.prems" by (subst (asm) check_tag_ways.simps) (simp split: if_splits)
  show ?case
  proof (cases "tag = tags e ! unat (idx * ways e + i) AND NOT DIRTY")
    case True
    then have "p = Array_Entry (unat (idx * ways e + i))"
      using "1.prems" lt by (subst (asm) check_tag_ways.simps) simp
    with True lt show ?thesis
      by (intro exI [of _ i]) auto
  next
    case False
    then have "check_tag_ways e idx tag (i + 1) = Some p"
      using "1.prems" lt by (subst (asm) check_tag_ways.simps) simp
    from "1.IH" [OF lt False this] obtain k where k: "i + 1 \<le> k" "k < ways e"
        "p = Array_Entry (unat (idx * ways e + k))"
        "tag = tags e ! unat (idx * ways e + k) AND NOT DIRTY"
        "\<forall>k'. i + 1 \<le> k' \<and> k' < k \<longrightarrow> tag \<noteq> tags e ! unat (idx * ways e + k') AND NOT DIRTY"
      by blast
    have "i < k"
      using k(1) succ_le_iff [OF lt] by simp
    then have "\<forall>k'. i \<le> k' \<and> k' < k \<longrightarrow> tag \<noteq> tags e ! unat (idx * ways e + k') AND NOT DIRTY"
      using k(5) False
      by (simp only: forall_from [of i k "\<lambda>k. tag \<noteq> tags e ! unat (idx * ways e + k) AND NOT DIRTY"])
        simp
    moreover note \<open>i < k\<close>
    ultimately show ?thesis
      using k(2,3,4) by (intro exI [of _ k]) auto
  qed
qed

lemma check_tag_ways_cong:
  assumes "ways e' = ways e"
    and "\<And>k. k < ways e \<Longrightarrow>
           (tag = tags e' ! unat (idx * ways e + k) AND NOT DIRTY) =
           (tag = tags e ! unat (idx * ways e + k) AND NOT DIRTY)"
  shows "check_tag_ways e' idx tag i = check_tag_ways e idx tag i"
  using assms
proof (induction e idx tag i rule: check_tag_ways.induct)
  case (1 e idx tag i)
  show ?case
  proof (cases "i < ways e")
    case False
    with "1.prems"(1) show ?thesis
      by (subst check_tag_ways.simps, subst (2) check_tag_ways.simps) simp
  next
    case lt: True
    show ?thesis
    proof (cases "tag = tags e ! unat (idx * ways e + i) AND NOT DIRTY")
      case True
      with lt "1.prems"(1) "1.prems"(2) [OF lt] show ?thesis
        by (subst check_tag_ways.simps, subst (2) check_tag_ways.simps) simp
    next
      case False
      have "check_tag_ways e' idx tag (i + 1) = check_tag_ways e idx tag (i + 1)"
        using "1.IH" [OF lt False "1.prems"(1)] "1.prems"(2) by blast
      with lt False "1.prems"(1) "1.prems"(2) [OF lt] show ?thesis
        by (subst check_tag_ways.simps, subst (2) check_tag_ways.simps) simp
    qed
  qed
qed

section \<open>The ordered map\<close>

lemma keys_map_assign: "set (map fst (map_assign k v m)) = insert k (set (map fst m))"
proof (induction m)
  case Nil
  then show ?case by simp
next
  case (Cons x m)
  then show ?case
    by (cases x) (simp add: insert_commute)
qed

lemma sorted_map_assign:
  "sorted_wrt (<) (map fst m) \<Longrightarrow> sorted_wrt (<) (map fst (map_assign k v m))"
proof (induction m)
  case Nil
  then show ?case by simp
next
  case (Cons x m)
  obtain k' v' where x: "x = (k', v')"
    by (cases x)
  show ?case
  proof (cases "k < k'")
    case True
    with Cons.prems x show ?thesis
      by (auto intro: less_trans)
  next
    case False
    show ?thesis
    proof (cases "k = k'")
      case True
      with Cons.prems x show ?thesis
        by simp
    next
      case ne: False
      with False have "k' < k"
        by simp
      moreover have "sorted_wrt (<) (map fst (map_assign k v m))"
        using Cons by simp
      moreover have "\<forall>y \<in> set (map fst (map_assign k v m)). k' < y"
        using Cons.prems x \<open>k' < k\<close> by (simp only: keys_map_assign) auto
      ultimately show ?thesis
        using x False ne by auto
    qed
  qed
qed

lemma length_map_assign_le: "length (map_assign k v m) \<le> Suc (length m)"
proof (induction m)
  case Nil
  then show ?case by simp
next
  case (Cons x m)
  then show ?case
    by (cases x) simp
qed

lemma map_of_map_assign:
  "map_of (map_assign k v m) k' = (if k' = k then Some v else map_of m k')"
proof (induction m)
  case Nil
  then show ?case by simp
next
  case (Cons x m)
  then show ?case
    by (cases x) auto
qed

lemma length_map_erase_at: "n < length m \<Longrightarrow> length (map_erase_at n m) = length m - 1"
  by (auto simp: map_erase_at_def)

lemma set_map_erase_at_subset: "set (map_erase_at n m) \<subseteq> set m"
  by (auto simp: map_erase_at_def dest: in_set_takeD in_set_dropD)

lemma map_erase_at_Cons:
  "map_erase_at 0 (x # m) = m" "map_erase_at (Suc n) (x # m) = x # map_erase_at n m"
  by (simp_all add: map_erase_at_def)

lemma sorted_map_erase_at:
  "sorted_wrt (<) (map fst m) \<Longrightarrow> sorted_wrt (<) (map fst (map_erase_at n m))"
proof (induction m arbitrary: n)
  case Nil
  then show ?case by (simp add: map_erase_at_def)
next
  case (Cons x m)
  show ?case
  proof (cases n)
    case 0
    with Cons.prems show ?thesis
      by (simp add: map_erase_at_Cons)
  next
    case (Suc n')
    have "sorted_wrt (<) (map fst (map_erase_at n' m))"
      using Cons by simp
    moreover have "\<forall>y \<in> set (map_erase_at n' m). fst x < fst y"
      using Cons.prems set_map_erase_at_subset [of n' m] by auto
    ultimately show ?thesis
      using Suc by (simp add: map_erase_at_Cons)
  qed
qed

lemma set_map_erase_at:
  assumes "sorted_wrt (<) (map fst m)" and "n < length m"
  shows "set (map_erase_at n m) = set m - {m ! n}"
proof -
  have d: "distinct m"
    using assms(1) by (metis distinct_map strict_sorted_iff)
  have m: "m = take n m @ (m ! n) # drop (Suc n) m"
    using assms(2) by (simp add: id_take_nth_drop)
  then have "distinct (take n m @ (m ! n) # drop (Suc n) m)"
    using d by simp
  then have "m ! n \<notin> set (take n m) \<union> set (drop (Suc n) m)"
    by auto
  moreover have "set m = set (take n m) \<union> {m ! n} \<union> set (drop (Suc n) m)"
    by (subst m) auto
  ultimately show ?thesis
    by (auto simp: map_erase_at_def)
qed

lemma set_map_assign:
  assumes "sorted_wrt (<) (map fst m)"
  shows "set (map_assign k v m) = insert (k, v) {x \<in> set m. fst x \<noteq> k}"
  using assms
proof (induction m)
  case Nil
  then show ?case by simp
next
  case (Cons x m)
  obtain k' v' where x: "x = (k', v')"
    by (cases x)
  from Cons.prems x have gt: "\<forall>y \<in> set m. k' < fst y"
    by simp
  show ?case
  proof (cases "k < k'")
    case True
    with gt have "\<forall>y \<in> set m. fst y \<noteq> k"
      by auto
    with True x show ?thesis
      by auto
  next
    case False
    show ?thesis
    proof (cases "k = k'")
      case True
      with gt have "\<forall>y \<in> set m. fst y \<noteq> k"
        by auto
      with True x show ?thesis
        by auto
    next
      case ne: False
      have "set (map_assign k v m) = insert (k, v) {x \<in> set m. fst x \<noteq> k}"
        using Cons by simp
      with False ne x show ?thesis
        by auto
    qed
  qed
qed

section \<open>Eviction installs a matching entry\<close>

lemma tag_or_VALID_not_DIRTY:
  fixes a :: u64
  assumes "2 \<le> s"
  shows "(drop_bit s a OR VALID) AND NOT DIRTY = drop_bit s a OR VALID"
proof (rule bit_word_eqI)
  fix n
  assume "n < LENGTH(64)"
  show "bit ((drop_bit s a OR VALID) AND NOT DIRTY) n = bit (drop_bit s a OR VALID) n"
    using tag_bits_clear [OF assms, of a] \<open>n < LENGTH(64)\<close>
    by (cases "n = 62") (auto simp: bit_and_iff bit_or_iff bit_not_iff bit_VALID bit_DIRTY)
qed

lemma well_formed_counters [simp]:
  "well_formed (e\<lparr> read_accesses := a \<rparr>) = well_formed e"
  "well_formed (e\<lparr> read_misses := a \<rparr>) = well_formed e"
  "well_formed (e\<lparr> bytes_read := a \<rparr>) = well_formed e"
  "well_formed (e\<lparr> write_accesses := a \<rparr>) = well_formed e"
  "well_formed (e\<lparr> write_misses := a \<rparr>) = well_formed e"
  "well_formed (e\<lparr> bytes_written := a \<rparr>) = well_formed e"
  "well_formed (e\<lparr> writebacks := a \<rparr>) = well_formed e"
  "well_formed (e\<lparr> lfsr := r \<rparr>) = well_formed e"
  "well_formed (e\<lparr> miss_handler := mh \<rparr>) = well_formed e"
  "well_formed (e\<lparr> log := l \<rparr>) = well_formed e"
  by (simp_all add: well_formed_def)

lemma check_tag_eqI:
  assumes "variant e' = variant e" "ways e' = ways e" "sets e' = sets e"
    "idx_shift e' = idx_shift e" "tags e' = tags e" "fa_tags e' = fa_tags e"
  shows "check_tag e' addr = check_tag e addr"
proof -
  have "check_tag_ways e' idx tag i = check_tag_ways e idx tag i" for idx tag i
    using assms by (intro check_tag_ways_cong) simp_all
  with assms show ?thesis
    by (simp add: check_tag_def cache_sim_t_check_tag_def fa_cache_sim_t_check_tag_def
        split: variant.splits option.splits)
qed

lemma check_tag_counters [simp]:
  "check_tag (e\<lparr> read_accesses := a \<rparr>) addr = check_tag e addr"
  "check_tag (e\<lparr> read_misses := a \<rparr>) addr = check_tag e addr"
  "check_tag (e\<lparr> bytes_read := a \<rparr>) addr = check_tag e addr"
  "check_tag (e\<lparr> write_accesses := a \<rparr>) addr = check_tag e addr"
  "check_tag (e\<lparr> write_misses := a \<rparr>) addr = check_tag e addr"
  "check_tag (e\<lparr> bytes_written := a \<rparr>) addr = check_tag e addr"
  "check_tag (e\<lparr> writebacks := a \<rparr>) addr = check_tag e addr"
  "check_tag (e\<lparr> lfsr := r \<rparr>) addr = check_tag e addr"
  "check_tag (e\<lparr> miss_handler := mh \<rparr>) addr = check_tag e addr"
  "check_tag (e\<lparr> log := l \<rparr>) addr = check_tag e addr"
  by (rule check_tag_eqI; simp)+

lemma well_formed_index:
  assumes "well_formed e" and "k < ways e"
  shows "unat ((x AND (sets e - 1)) * ways e + k) = unat (x AND (sets e - 1)) * unat (ways e) + unat k"
    and "unat ((x AND (sets e - 1)) * ways e + k) < length (tags e)"
proof -
  have s: "sets e \<noteq> 0"
    using assms(1) by (auto simp: well_formed_def is_pow2_def)
  have b: "unat (sets e) * unat (ways e) < 2 ^ 64" "length (tags e) = unat (sets e) * unat (ways e)"
    using assms(1) by (simp_all add: well_formed_def)
  note i = entry_index [OF b(1) set_index_less [OF s] assms(2), of x]
  show "unat ((x AND (sets e - 1)) * ways e + k) = unat (x AND (sets e - 1)) * unat (ways e) + unat k"
    using i(1) .
  show "unat ((x AND (sets e - 1)) * ways e + k) < length (tags e)"
    using i b(2) by simp
qed

text \<open>What \<open>cache_sim_t::victimize\<close> returns on a well-formed engine.\<close>

lemma cache_sim_t_victimize_Inr:
  fixes e :: cache_sim_t and addr :: u64
  assumes "well_formed e"
  defines "idx \<equiv> drop_bit (unat (idx_shift e)) addr AND (sets e - 1)"
    and "way \<equiv> ucast (fst (lfsr_next (lfsr e))) mod ways e"
  shows "cache_sim_t_victimize e addr =
           Inr (tags e ! unat (idx * ways e + way),
                e\<lparr> lfsr := snd (lfsr_next (lfsr e)),
                   tags := (tags e)[unat (idx * ways e + way) :=
                              drop_bit (unat (idx_shift e)) addr OR VALID] \<rparr>)"
    and "way < ways e" and "unat (idx * ways e + way) < length (tags e)"
proof -
  have w: "ways e \<noteq> 0"
    using assms(1) by (simp add: well_formed_def)
  then show "way < ways e"
    unfolding way_def by (rule way_less)
  then show "unat (idx * ways e + way) < length (tags e)"
    unfolding idx_def using assms(1) by (intro well_formed_index)
  show "cache_sim_t_victimize e addr =
           Inr (tags e ! unat (idx * ways e + way),
                e\<lparr> lfsr := snd (lfsr_next (lfsr e)),
                   tags := (tags e)[unat (idx * ways e + way) :=
                              drop_bit (unat (idx_shift e)) addr OR VALID] \<rparr>)"
    using w by (simp add: cache_sim_t_victimize_def idx_def way_def Let_def split_beta)
qed

lemma cache_sim_t_victimize_check_tag:
  assumes "well_formed e" and "cache_sim_t_victimize e addr = Inr (victim, e')"
  shows "cache_sim_t_check_tag e' addr \<noteq> None"
proof
  let ?s = "unat (idx_shift e)"
  let ?idx = "drop_bit ?s addr AND (sets e - 1)"
  let ?way = "ucast (fst (lfsr_next (lfsr e))) mod ways e"
  let ?j = "unat (?idx * ways e + ?way)"
  let ?T = "drop_bit ?s addr OR VALID"
  note v = cache_sim_t_victimize_Inr(1) [OF assms(1), where addr = addr]
    cache_sim_t_victimize_Inr(2) [OF assms(1)]
    cache_sim_t_victimize_Inr(3) [OF assms(1), where addr = addr]
  from assms(2) v(1) have e': "e' = e\<lparr> lfsr := snd (lfsr_next (lfsr e)), tags := (tags e)[?j := ?T] \<rparr>"
    by simp
  assume "cache_sim_t_check_tag e' addr = None"
  then have "check_tag_ways e' ?idx ?T 0 = None"
    by (simp add: cache_sim_t_check_tag_def e' Let_def)
  then have "?T \<noteq> tags e' ! unat (?idx * ways e' + ?way) AND NOT DIRTY"
    using v(2) by (simp add: check_tag_ways_None_iff e')
  moreover have "tags e' ! unat (?idx * ways e' + ?way) = ?T"
    using v(3) by (simp add: e')
  moreover have "2 \<le> ?s"
    using assms(1) by (simp add: well_formed_def)
  ultimately show False
    by (simp add: tag_or_VALID_not_DIRTY)
qed

lemma fa_cache_sim_t_victimize_check_tag:
  assumes "fa_cache_sim_t_victimize e addr = Inr (victim, e')"
  shows "fa_cache_sim_t_check_tag e' addr \<noteq> None"
proof -
  let ?key = "drop_bit (unat (idx_shift e)) addr"
  from assms obtain m where "fa_tags e' = map_assign ?key (?key OR VALID) m"
    and "idx_shift e' = idx_shift e"
    by (auto simp: fa_cache_sim_t_victimize_def Let_def split_beta split: if_splits)
  then show ?thesis
    by (simp add: fa_cache_sim_t_check_tag_def map_of_map_assign)
qed

lemma victimize_variant:
  assumes "victimize e addr = Inr (victim, e')"
  shows "variant e' = variant e"
  using assms
  by (auto simp: victimize_def cache_sim_t_victimize_def fa_cache_sim_t_victimize_def
      Let_def split_beta split: variant.splits if_splits)

lemma victimize_check_tag:
  assumes "well_formed e" and "victimize e addr = Inr (victim, e')"
  shows "check_tag e' addr \<noteq> None"
proof (cases "variant e")
  case Set_Associative
  with assms(2) have "cache_sim_t_victimize e addr = Inr (victim, e')"
    by (simp add: victimize_def)
  from cache_sim_t_victimize_check_tag [OF assms(1) this] show ?thesis
    using victimize_variant [OF assms(2)] Set_Associative by (simp add: check_tag_def)
next
  case Fully_Associative
  with assms(2) have "fa_cache_sim_t_victimize e addr = Inr (victim, e')"
    by (simp add: victimize_def)
  from fa_cache_sim_t_victimize_check_tag [OF this] show ?thesis
    using victimize_variant [OF assms(2)] Fully_Associative by (simp add: check_tag_def)
qed

section \<open>Access keeps the geometry and always returns\<close>

lemma slot_set_fields [simp]:
  "sets (slot_set p v e) = sets e" "ways (slot_set p v e) = ways e"
  "linesz (slot_set p v e) = linesz e" "idx_shift (slot_set p v e) = idx_shift e"
  "variant (slot_set p v e) = variant e" "miss_handler (slot_set p v e) = miss_handler e"
  "lfsr (slot_set p v e) = lfsr e" "log (slot_set p v e) = log e" "name (slot_set p v e) = name e"
  "read_accesses (slot_set p v e) = read_accesses e" "read_misses (slot_set p v e) = read_misses e"
  "bytes_read (slot_set p v e) = bytes_read e" "write_accesses (slot_set p v e) = write_accesses e"
  "write_misses (slot_set p v e) = write_misses e" "bytes_written (slot_set p v e) = bytes_written e"
  "writebacks (slot_set p v e) = writebacks e"
  by (simp_all add: slot_set_def split: slot.splits)

lemma map_fst_slot_update:
  "map fst (map (\<lambda>(k', v'). if k' = k then (k', v) else (k', v')) m) = map fst m"
  by (induction m) auto

lemma slot_set_well_formed [simp]: "well_formed (slot_set p v e) = well_formed e"
proof (cases p)
  case (Array_Entry i)
  then show ?thesis
    by (simp add: slot_set_def well_formed_def)
next
  case (Map_Entry k)
  have "length (fa_tags (slot_set p v e)) = length (fa_tags e)"
    using Map_Entry by (simp add: slot_set_def)
  moreover have "map fst (fa_tags (slot_set p v e)) = map fst (fa_tags e)"
    using Map_Entry by (auto simp: slot_set_def split: prod.splits)
  moreover have "tags (slot_set p v e) = tags e"
    using Map_Entry by (simp add: slot_set_def)
  ultimately show ?thesis
    by (simp add: well_formed_def)
qed

lemma fa_cache_sim_t_victimize_Inr:
  fixes e :: cache_sim_t and addr :: u64
  assumes "well_formed e"
  defines "key \<equiv> drop_bit (unat (idx_shift e)) addr"
    and "n \<equiv> unat (ucast (fst (lfsr_next (lfsr e))) mod ways e)"
  shows "fa_cache_sim_t_victimize e addr =
     (if length (fa_tags e) = unat (ways e)
      then Inr (snd (fa_tags e ! n),
             e\<lparr> lfsr := snd (lfsr_next (lfsr e)),
                fa_tags := map_assign key (key OR VALID) (map_erase_at n (fa_tags e)) \<rparr>)
      else Inr (0, e\<lparr> fa_tags := map_assign key (key OR VALID) (fa_tags e) \<rparr>))"
  using assms(1)
  by (simp add: fa_cache_sim_t_victimize_def well_formed_def key_def n_def Let_def split_beta)

lemma victim_offset_less:
  assumes "well_formed e"
  shows "unat (ucast (fst (lfsr_next (lfsr e))) mod ways e) < unat (ways e)"
proof -
  have "ways e \<noteq> 0"
    using assms by (simp add: well_formed_def)
  then have "ucast (fst (lfsr_next (lfsr e))) mod ways e < ways e"
    by (rule way_less)
  then show ?thesis
    by (simp only: word_less_nat_alt)
qed

lemma victimize_well_formed:
  assumes "well_formed e" and "victimize e addr = Inr (victim, e')"
  shows "well_formed e'"
proof (cases "variant e")
  case Set_Associative
  with assms(2) have "cache_sim_t_victimize e addr = Inr (victim, e')"
    by (simp add: victimize_def)
  with cache_sim_t_victimize_Inr(1) [OF assms(1), where addr = addr]
  have "e' = e\<lparr> lfsr := snd (lfsr_next (lfsr e)),
           tags := (tags e)[unat ((drop_bit (unat (idx_shift e)) addr AND (sets e - 1)) * ways e +
               ucast (fst (lfsr_next (lfsr e))) mod ways e) :=
                              drop_bit (unat (idx_shift e)) addr OR VALID] \<rparr>"
    by simp
  with assms(1) show ?thesis
    by (simp add: well_formed_def)
next
  case Fully_Associative
  let ?key = "drop_bit (unat (idx_shift e)) addr"
  let ?n = "unat (ucast (fst (lfsr_next (lfsr e))) mod ways e)"
  from Fully_Associative assms(2) have v: "fa_cache_sim_t_victimize e addr = Inr (victim, e')"
    by (simp add: victimize_def)
  have le: "length (fa_tags e) \<le> unat (ways e)" and srt: "sorted_wrt (<) (map fst (fa_tags e))"
    using assms(1) by (simp_all add: well_formed_def)
  show ?thesis
  proof (cases "length (fa_tags e) = unat (ways e)")
    case True
    with v fa_cache_sim_t_victimize_Inr [OF assms(1), where addr = addr]
    have e': "e' = e\<lparr> lfsr := snd (lfsr_next (lfsr e)),
                fa_tags := map_assign ?key (?key OR VALID) (map_erase_at ?n (fa_tags e)) \<rparr>"
      by simp
    have "?n < length (fa_tags e)"
      using victim_offset_less [OF assms(1)] True by simp
    then have "length (map_erase_at ?n (fa_tags e)) = length (fa_tags e) - 1"
      by (rule length_map_erase_at)
    then have "length (map_assign ?key (?key OR VALID) (map_erase_at ?n (fa_tags e))) \<le> unat (ways e)"
      using length_map_assign_le [of ?key "?key OR VALID" "map_erase_at ?n (fa_tags e)"] le
        \<open>?n < length (fa_tags e)\<close>
      by simp
    moreover have "sorted_wrt (<) (map fst (map_assign ?key (?key OR VALID) (map_erase_at ?n (fa_tags e))))"
      using srt by (intro sorted_map_assign sorted_map_erase_at)
    ultimately show ?thesis
      using assms(1) by (simp add: e' well_formed_def)
  next
    case False
    with v fa_cache_sim_t_victimize_Inr [OF assms(1), where addr = addr]
    have e': "e' = e\<lparr> fa_tags := map_assign ?key (?key OR VALID) (fa_tags e) \<rparr>"
      by simp
    have "length (map_assign ?key (?key OR VALID) (fa_tags e)) \<le> unat (ways e)"
      using length_map_assign_le [of ?key "?key OR VALID" "fa_tags e"] le False
      by simp
    moreover have "sorted_wrt (<) (map fst (map_assign ?key (?key OR VALID) (fa_tags e)))"
      using srt by (rule sorted_map_assign)
    ultimately show ?thesis
      using assms(1) by (simp add: e' well_formed_def)
  qed
qed

lemma victimize_total:
  assumes "well_formed e"
  shows "\<exists>victim e'. victimize e addr = Inr (victim, e')"
proof (cases "variant e")
  case Set_Associative
  then show ?thesis
    using cache_sim_t_victimize_Inr(1) [OF assms, where addr = addr]
    by (simp add: victimize_def)
next
  case Fully_Associative
  then show ?thesis
    using fa_cache_sim_t_victimize_Inr [OF assms, where addr = addr]
    by (simp add: victimize_def)
qed

lemma victimize_fields:
  assumes "victimize e addr = Inr (victim, e')"
  shows "sets e' = sets e \<and> ways e' = ways e \<and> linesz e' = linesz e \<and>
         idx_shift e' = idx_shift e \<and> variant e' = variant e \<and>
         miss_handler e' = miss_handler e \<and> log e' = log e \<and> name e' = name e \<and>
         read_accesses e' = read_accesses e \<and> read_misses e' = read_misses e \<and>
         bytes_read e' = bytes_read e \<and> write_accesses e' = write_accesses e \<and>
         write_misses e' = write_misses e \<and> bytes_written e' = bytes_written e \<and>
         writebacks e' = writebacks e"
  using assms
  by (auto simp: victimize_def cache_sim_t_victimize_def fa_cache_sim_t_victimize_def
      Let_def split_beta split: variant.splits if_splits)

lemma access_miss_total:
  assumes "well_formed e"
  shows "\<exists>e' evs. access_miss e addr store = Inr (e', evs) \<and> well_formed e'"
proof -
  let ?e3 = "if store then e\<lparr> write_misses := write_misses e + 1 \<rparr>
             else e\<lparr> read_misses := read_misses e + 1 \<rparr>"
  have wf3: "well_formed ?e3"
    using assms by simp
  then obtain victim e4 where v: "victimize ?e3 addr = Inr (victim, e4)"
    using victimize_total by blast
  have wf4: "well_formed e4"
    using victimize_well_formed [OF wf3 v] .
  let ?e5 = "if victim AND (VALID OR DIRTY) = (VALID OR DIRTY)
             then e4\<lparr> writebacks := writebacks e4 + 1 \<rparr> else e4"
  have wf5: "well_formed ?e5"
    using wf4 by simp
  have "check_tag ?e5 addr = check_tag e4 addr"
    by simp
  then obtain p where p: "check_tag ?e5 addr = Some p"
    using victimize_check_tag [OF wf3 v] by auto
  show ?thesis
  proof (cases store)
    case True
    have "access_miss e addr store =
        Inr (slot_set p (slot_get ?e5 p OR DIRTY) ?e5,
          (if log ?e3 then [Log_Miss (name ?e3) store addr] else []) @
          (if victim AND (VALID OR DIRTY) = (VALID OR DIRTY) \<and> miss_handler e4 \<noteq> None
           then [Miss_Handler_Access (push_bit (unat (idx_shift e4)) (victim AND NOT (VALID OR DIRTY)))
                   (linesz e4) True] else []) @
          (if miss_handler ?e5 \<noteq> None
           then [Miss_Handler_Access (addr AND NOT (linesz ?e5 - 1)) (linesz ?e5) False] else []))"
      using v p True unfolding access_miss_def Let_def by (simp del: check_tag_counters)
    with wf5 show ?thesis
      by (metis slot_set_well_formed)
  next
    case False
    have "access_miss e addr store =
        Inr (?e5,
          (if log ?e3 then [Log_Miss (name ?e3) store addr] else []) @
          (if victim AND (VALID OR DIRTY) = (VALID OR DIRTY) \<and> miss_handler e4 \<noteq> None
           then [Miss_Handler_Access (push_bit (unat (idx_shift e4)) (victim AND NOT (VALID OR DIRTY)))
                   (linesz e4) True] else []) @
          (if miss_handler ?e5 \<noteq> None
           then [Miss_Handler_Access (addr AND NOT (linesz ?e5 - 1)) (linesz ?e5) False] else []))"
      using v False unfolding access_miss_def Let_def by simp
    with wf5 show ?thesis
      by metis
  qed
qed

lemma access_total:
  assumes "well_formed e"
  shows "\<exists>e' evs. access e addr bytes store = Inr (e', evs) \<and> well_formed e'"
proof -
  let ?e2 = "if store then e\<lparr> write_accesses := write_accesses e + 1,
                             bytes_written := bytes_written e + bytes \<rparr>
             else e\<lparr> read_accesses := read_accesses e + 1, bytes_read := bytes_read e + bytes \<rparr>"
  have wf2: "well_formed ?e2"
    using assms by simp
  show ?thesis
  proof (cases "check_tag ?e2 addr")
    case None
    then have "access e addr bytes store = access_miss ?e2 addr store"
      by (cases store) (simp_all add: access_def Let_def del: check_tag_counters)
    with access_miss_total [OF wf2] show ?thesis
      by simp
  next
    case (Some p)
    then have "access e addr bytes store =
        Inr (if store then slot_set p (slot_get ?e2 p OR DIRTY) ?e2 else ?e2, [])"
      by (cases store) (simp_all add: access_def Let_def del: check_tag_counters)
    with wf2 show ?thesis
      by (cases store) simp_all
  qed
qed

section \<open>The loop of clean_invalidate\<close>

lemma clean_invalidate_line_fields [simp]:
  "sets (clean_invalidate_line c i e a) = sets e" "ways (clean_invalidate_line c i e a) = ways e"
  "linesz (clean_invalidate_line c i e a) = linesz e"
  "idx_shift (clean_invalidate_line c i e a) = idx_shift e"
  "variant (clean_invalidate_line c i e a) = variant e"
  "miss_handler (clean_invalidate_line c i e a) = miss_handler e"
  "lfsr (clean_invalidate_line c i e a) = lfsr e"
  by (simp_all add: clean_invalidate_line_def Let_def split: option.splits)

lemma clean_invalidate_line_well_formed [simp]:
  "well_formed (clean_invalidate_line c i e a) = well_formed e"
  by (simp add: clean_invalidate_line_def Let_def split: option.splits)

lemma foldl_line_fields [simp]:
  "sets (foldl (clean_invalidate_line c i) e as) = sets e"
  "ways (foldl (clean_invalidate_line c i) e as) = ways e"
  "linesz (foldl (clean_invalidate_line c i) e as) = linesz e"
  "idx_shift (foldl (clean_invalidate_line c i) e as) = idx_shift e"
  "variant (foldl (clean_invalidate_line c i) e as) = variant e"
  "miss_handler (foldl (clean_invalidate_line c i) e as) = miss_handler e"
  "lfsr (foldl (clean_invalidate_line c i) e as) = lfsr e"
  "well_formed (foldl (clean_invalidate_line c i) e as) = well_formed e"
  by (induction as arbitrary: e; simp)+

lemma aligned_dvd:
  fixes x :: u64
  shows "2 ^ s dvd unat (x AND NOT (mask s))"
proof -
  have "take_bit s (x AND NOT (mask s)) = 0"
    by (rule bit_word_eqI) (auto simp: bit_simps)
  then have "take_bit s (unat (x AND NOT (mask s))) = 0"
    by (metis unsigned_0 unsigned_take_bit_eq)
  then show ?thesis
    by (simp only: take_bit_eq_0_iff)
qed

lemma aligned_step:
  fixes cur end_addr :: u64
  assumes "s < 64" and "2 ^ s dvd unat cur" and "2 ^ s dvd unat end_addr" and "cur < end_addr"
  shows "unat (cur + 2 ^ s) = unat cur + 2 ^ s" and "unat cur + 2 ^ s \<le> unat end_addr"
proof -
  from assms(2,3) obtain a b where ab: "unat cur = 2 ^ s * a" "unat end_addr = 2 ^ s * b"
    unfolding dvd_def by blast
  have "unat cur < unat end_addr"
    using assms(4) by (simp only: word_less_nat_alt)
  with ab have "a < b"
    by simp
  then have "Suc a \<le> b"
    by simp
  then have "2 ^ s * Suc a \<le> (2::nat) ^ s * b"
    by (rule mult_le_mono2)
  with ab show le: "unat cur + 2 ^ s \<le> unat end_addr"
    by simp
  then have "unat cur + unat (2 ^ s :: u64) < 2 ^ LENGTH(64)"
    using unat_lt_2p64 [of end_addr] unat_pow2 [OF assms(1)] by simp
  then have "unat (cur + 2 ^ s) = unat cur + unat (2 ^ s :: u64)"
    by (simp only: unat_add_lem)
  then show "unat (cur + 2 ^ s) = unat cur + 2 ^ s"
    using unat_pow2 [OF assms(1)] by simp
qed

lemma div_add_Suc: "0 < d \<Longrightarrow> (x + d) div d = Suc (x div d)" for d x :: nat
  by (simp add: div_add_self2)

lemma line_addrs_Nil:
  assumes "\<not> cur < end_addr"
  shows "line_addrs cur end_addr sz = []"
proof -
  have "unat end_addr \<le> unat cur"
    using assms by (simp add: word_less_nat_alt)
  then show ?thesis
    by (simp add: line_addrs_def)
qed

lemma line_addrs_Cons:
  fixes cur end_addr :: u64
  assumes "s < 64" and "2 ^ s dvd unat cur" and "2 ^ s dvd unat end_addr" and "cur < end_addr"
  shows "line_addrs cur end_addr (2 ^ s) = cur # line_addrs (cur + 2 ^ s) end_addr (2 ^ s)"
proof -
  note st = aligned_step [OF assms]
  let ?n = "(unat end_addr - unat (cur + 2 ^ s)) div 2 ^ s"
  have "unat end_addr - unat cur = (unat end_addr - unat (cur + 2 ^ s)) + 2 ^ s"
    using st by simp
  moreover have "((unat end_addr - unat (cur + 2 ^ s)) + 2 ^ s) div 2 ^ s = Suc ?n"
    by (rule div_add_Suc) simp
  ultimately have n: "(unat end_addr - unat cur) div 2 ^ s = Suc ?n"
    by (simp only:)
  have "map (\<lambda>i. cur + of_nat i * 2 ^ s) [0..<Suc ?n] =
        cur # map (\<lambda>i. cur + 2 ^ s + of_nat i * 2 ^ s) [0..<?n]"
    by (simp add: map_upt_Suc algebra_simps del: upt_Suc)
  then show ?thesis
    using n unat_pow2 [OF assms(1)] by (simp add: line_addrs_def del: upt_Suc)
qed

lemma clean_invalidate_loop_fold:
  assumes "s < 64" and "linesz e = 2 ^ s" and "2 ^ s dvd unat cur" and "2 ^ s dvd unat end_addr"
  shows "clean_invalidate_loop clean inval end_addr e cur =
           Some (foldl (clean_invalidate_line clean inval) e (line_addrs cur end_addr (linesz e)))"
  using assms(2,3)
proof (induction "unat end_addr - unat cur" arbitrary: e cur rule: less_induct)
  case less
  show ?case
  proof (cases "cur < end_addr")
    case False
    then show ?thesis
      by (subst clean_invalidate_loop.simps) (simp add: line_addrs_Nil)
  next
    case True
    note st = aligned_step [OF assms(1) less.prems(2) assms(4) True]
    let ?e1 = "clean_invalidate_line clean inval e cur"
    have "(0::nat) < 2 ^ s"
      by simp
    then have "unat end_addr - unat (cur + 2 ^ s) < unat end_addr - unat cur"
      using st by linarith
    moreover have "linesz ?e1 = 2 ^ s"
      using less.prems(1) by simp
    moreover have "2 ^ s dvd unat (cur + 2 ^ s)"
      using st(1) less.prems(2) by simp
    ultimately have "clean_invalidate_loop clean inval end_addr ?e1 (cur + 2 ^ s) =
        Some (foldl (clean_invalidate_line clean inval) ?e1 (line_addrs (cur + 2 ^ s) end_addr (linesz ?e1)))"
      by (rule less.hyps)
    then show ?thesis
      using True less.prems(1) line_addrs_Cons [OF assms(1) less.prems(2) assms(4) True]
      by (subst clean_invalidate_loop.simps) simp
  qed
qed

lemma clean_invalidate_fold:
  assumes "well_formed e"
  shows "clean_invalidate e addr bytes clean inval =
     Some (foldl (clean_invalidate_line clean inval) e
             (line_addrs (addr AND NOT (linesz e - 1))
                ((addr + bytes + linesz e - 1) AND NOT (linesz e - 1)) (linesz e)),
           if miss_handler e \<noteq> None
           then [Miss_Handler_Clean_Invalidate addr bytes clean inval] else [])"
proof -
  let ?s = "unat (idx_shift e)"
  have s: "?s < 64" "linesz e = 2 ^ ?s"
    using assms by (simp_all add: well_formed_def)
  then have m: "linesz e - 1 = mask ?s"
    by (simp add: line_mask)
  show ?thesis
    unfolding clean_invalidate_def Let_def
    by (simp add: clean_invalidate_loop_fold [OF s] m aligned_dvd)
qed

section \<open>Reachable engines are well formed\<close>

lemma uint_word_of_int_nonneg:
  assumes "0 \<le> k" and "k < 2 ^ 64"
  shows "uint (word_of_int k :: u64) = k"
  using assms by (simp add: uint_word_of_int_eq take_bit_int_eq_self)

lemma uint_word_of_int_neg:
  assumes "- (2 ^ 64) \<le> k" and "k < 0"
  shows "uint (word_of_int k :: u64) = k + 2 ^ 64"
proof -
  have "uint (word_of_int k :: u64) = k mod 2 ^ 64"
    by (simp add: uint_word_of_int_eq take_bit_eq_mod)
  also have "\<dots> = (k + 2 ^ 64) mod 2 ^ 64"
    by simp
  also have "\<dots> = k + 2 ^ 64"
    using assms by (intro mod_pos_pos_trivial) simp_all
  finally show ?thesis .
qed

lemma product_no_wrap:
  fixes s w :: int
  assumes s: "- (2 ^ 31) \<le> s" "s < 2 ^ 31" and w: "- (2 ^ 31) \<le> w" "w < 2 ^ 31"
    and p: "is_pow2 (word_of_int s :: u64)"
    and a: "(word_of_int s :: u64) * word_of_int w < 2 ^ 60"
  shows "unat (word_of_int s :: u64) * unat (word_of_int w :: u64) < 2 ^ 64"
proof -
  from p obtain k where k: "k < 64" "(word_of_int s :: u64) = 2 ^ k"
    by (auto simp: is_pow2_def)
  have "uint (2 ^ k :: u64) = int (unat (2 ^ k :: u64))"
    by simp
  also have "\<dots> = int (2 ^ k)"
    by (simp only: unat_pow2 [OF k(1)])
  finally have uk: "uint (word_of_int s :: u64) = 2 ^ k"
    using k(2) by simp
  have "(2::int) ^ k \<le> 2 ^ 63"
    using k(1) by (intro power_increasing) simp_all
  have spos: "0 < s"
  proof (rule ccontr)
    assume "\<not> 0 < s"
    then consider "s = 0" | "s < 0"
      by linarith
    then show False
    proof cases
      case 1
      with uk show ?thesis
        by simp
    next
      case 2
      with s(1) have "uint (word_of_int s :: u64) = s + 2 ^ 64"
        by (intro uint_word_of_int_neg) simp_all
      with uk \<open>(2::int) ^ k \<le> 2 ^ 63\<close> s(1) show ?thesis
        by simp
    qed
  qed
  have wpos: "0 \<le> w"
  proof (rule ccontr)
    assume "\<not> 0 \<le> w"
    then have wn: "w < 0"
      by simp
    define p where "p = s * w"
    have "p < 0"
      unfolding p_def using spos wn by (simp add: mult_pos_neg)
    moreover have lo: "- (2 ^ 62) \<le> p"
    proof -
      have "s * (- w) \<le> 2 ^ 31 * 2 ^ 31"
        using s(2) w(1) spos wn by (intro mult_mono) simp_all
      then show ?thesis
        unfolding p_def by simp
    qed
    ultimately have u: "uint (word_of_int p :: u64) = p + 2 ^ 64"
      by (intro uint_word_of_int_neg) simp_all
    have "(word_of_int s :: u64) * word_of_int w = word_of_int p"
      unfolding p_def by (rule wi_hom_mult)
    with a have "(word_of_int p :: u64) < 2 ^ 60"
      by simp
    then have "uint (word_of_int p :: u64) < uint (2 ^ 60 :: u64)"
      by (simp only: word_less_alt)
    moreover have "uint (2 ^ 60 :: u64) = 2 ^ 60"
      by simp
    ultimately have "p + 2 ^ 64 < 2 ^ 60"
      using u by simp
    with lo show False
      by simp
  qed
  have "unat (word_of_int s :: u64) = nat s" "unat (word_of_int w :: u64) = nat w"
    using spos wpos s(2) w(2) by (simp_all add: unat_eq_nat_uint uint_word_of_int_nonneg)
  moreover have "nat s * nat w \<le> 2 ^ 31 * 2 ^ 31"
    using s(2) w(2) spos wpos by (intro mult_mono) simp_all
  ultimately show ?thesis
    by simp
qed

lemma construct_well_formed:
  assumes "construct config n = Inr e" and "ways e \<noteq> 0"
  shows "well_formed e"
proof -
  from construct_Inr [OF assms(1)] obtain s w l where
    r: "- (2 ^ 31) \<le> s" "s < 2 ^ 31" "- (2 ^ 31) \<le> w" "w < 2 ^ 31"
    and i: "init (if 4 < (word_of_int w :: u64) \<and> (word_of_int s :: u64) = 1
                 then Fully_Associative else Set_Associative)
             (word_of_int s) (word_of_int w) (word_of_int l) n = Inr e"
    by blast
  note f = init_Inr [OF i] and g = init_geometry [OF i]
  have nw: "unat (sets e) * unat (ways e) < 2 ^ 64"
    using product_no_wrap [OF r] f by simp
  then have "unat (sets e) * unat (ways e) < 2 ^ LENGTH(64)"
    by simp
  then have "unat (sets e * ways e) = unat (sets e) * unat (ways e)"
    by (simp only: unat_mult_lem)
  then have "length (tags e) = unat (sets e) * unat (ways e)"
    using f by simp
  with f g nw assms(2) show ?thesis
    by (simp add: well_formed_def)
qed

lemma apply_operation_well_formed:
  assumes "well_formed e"
  shows "\<exists>e'. apply_operation e op = Some e' \<and> well_formed e'"
proof (cases op)
  case (Access addr bytes store)
  with access_total [OF assms, of addr bytes store] show ?thesis
    by auto
next
  case (Clean_Invalidate addr bytes clean inval)
  with clean_invalidate_fold [OF assms, of addr bytes clean inval] assms show ?thesis
    by simp
next
  case (Set_Miss_Handler mh)
  with assms show ?thesis
    by (simp add: set_miss_handler_def)
next
  case (Set_Log l)
  with assms show ?thesis
    by (simp add: set_log_def)
qed

lemma run_well_formed:
  assumes "well_formed e"
  shows "\<exists>e'. run e ops = Some e' \<and> well_formed e'"
  using assms
proof (induction ops arbitrary: e)
  case Nil
  then show ?case by simp
next
  case (Cons op ops)
  from apply_operation_well_formed [OF Cons.prems, of op]
  obtain e1 where "apply_operation e op = Some e1" "well_formed e1"
    by blast
  with Cons.IH [of e1] show ?case
    by simp
qed

section \<open>The entry a miss installs\<close>

lemma map_of_slot_update:
  "map_of (map (\<lambda>(k', v'). if k' = k then (k', v) else (k', v')) m) k' =
     (if k' = k then map_option (\<lambda>_. v) (map_of m k) else map_of m k')"
  by (induction m) auto

text \<open>Writing a value that differs from the old one at most in DIRTY changes no lookup.\<close>

lemma check_tag_slot_set_DIRTY:
  assumes "v AND NOT DIRTY = slot_get e p AND NOT DIRTY"
  shows "check_tag (slot_set p v e) a = check_tag e a"
proof (cases p)
  case (Array_Entry j)
  have "check_tag_ways (e\<lparr> tags := (tags e)[j := v] \<rparr>) idx tag i = check_tag_ways e idx tag i"
    for idx tag i
  proof (rule check_tag_ways_cong)
    fix k
    show "(tag = tags (e\<lparr> tags := (tags e)[j := v] \<rparr>) ! unat (idx * ways e + k) AND NOT DIRTY) =
          (tag = tags e ! unat (idx * ways e + k) AND NOT DIRTY)"
    proof (cases "unat (idx * ways e + k) = j \<and> j < length (tags e)")
      case True
      with assms Array_Entry show ?thesis
        by (simp add: slot_get_def)
    next
      case False
      then show ?thesis
        by (cases "j < length (tags e)") (simp_all add: list_update_beyond)
    qed
  qed simp
  with Array_Entry show ?thesis
    by (simp add: slot_set_def check_tag_def cache_sim_t_check_tag_def
        fa_cache_sim_t_check_tag_def split: variant.splits option.splits)
next
  case (Map_Entry k)
  then show ?thesis
    by (auto simp: slot_set_def check_tag_def cache_sim_t_check_tag_def
        fa_cache_sim_t_check_tag_def map_of_slot_update intro!: check_tag_ways_cong
        split: variant.splits option.splits)
qed


text \<open>A pointer that \<open>check_tag\<close> returned points to an entry that exists.\<close>

lemma check_tag_slot_valid:
  assumes "well_formed e" and "check_tag e a = Some p"
  shows "slot_get (slot_set p v e) p = v"
proof (cases "variant e")
  case Set_Associative
  with assms(2) have "check_tag_ways e (drop_bit (unat (idx_shift e)) a AND (sets e - 1))
      (drop_bit (unat (idx_shift e)) a OR VALID) 0 = Some p"
    by (simp add: check_tag_def cache_sim_t_check_tag_def Let_def)
  from check_tag_ways_Some [OF this] obtain k where
    k: "k < ways e" "p = Array_Entry (unat ((drop_bit (unat (idx_shift e)) a AND (sets e - 1)) * ways e + k))"
    by blast
  from well_formed_index(2) [OF assms(1) k(1)] k(2) show ?thesis
    by (simp add: slot_get_def slot_set_def)
next
  case Fully_Associative
  with assms(2) obtain x where "p = Map_Entry (drop_bit (unat (idx_shift e)) a)"
    "map_of (fa_tags e) (drop_bit (unat (idx_shift e)) a) = Some x"
    by (auto simp: check_tag_def fa_cache_sim_t_check_tag_def split: option.splits)
  then show ?thesis
    by (simp add: slot_get_def slot_set_def map_of_slot_update)
qed

text \<open>After a miss, the entry that \<open>check_tag\<close> finds is the one \<open>victimize\<close> wrote.\<close>

lemma victimize_installs:
  assumes "well_formed e" and "check_tag e addr = None" and "victimize e addr = Inr (victim, e')"
  shows "\<exists>p. check_tag e' addr = Some p \<and> slot_get e' p = drop_bit (unat (idx_shift e)) addr OR VALID"
proof (cases "variant e")
  case Set_Associative
  let ?s = "unat (idx_shift e)"
  let ?idx = "drop_bit ?s addr AND (sets e - 1)"
  let ?way = "ucast (fst (lfsr_next (lfsr e))) mod ways e"
  let ?j = "unat (?idx * ways e + ?way)"
  let ?T = "drop_bit ?s addr OR VALID"
  note v = cache_sim_t_victimize_Inr(1) [OF assms(1), where addr = addr]
    cache_sim_t_victimize_Inr(2) [OF assms(1)]
    cache_sim_t_victimize_Inr(3) [OF assms(1), where addr = addr]
  from assms(3) Set_Associative v(1)
  have e': "e' = e\<lparr> lfsr := snd (lfsr_next (lfsr e)), tags := (tags e)[?j := ?T] \<rparr>"
    by (simp add: victimize_def)
  have none: "\<forall>k. k < ways e \<longrightarrow> ?T \<noteq> tags e ! unat (?idx * ways e + k) AND NOT DIRTY"
    using assms(2) Set_Associative
    by (simp add: check_tag_def cache_sim_t_check_tag_def Let_def check_tag_ways_None_iff)
  from victimize_check_tag [OF assms(1,3)] obtain p where p: "check_tag e' addr = Some p"
    by auto
  then have "check_tag_ways e' ?idx ?T 0 = Some p"
    using Set_Associative by (simp add: check_tag_def cache_sim_t_check_tag_def Let_def e')
  from check_tag_ways_Some [OF this] obtain k where
    k: "k < ways e" "p = Array_Entry (unat (?idx * ways e + k))"
      "?T = tags e' ! unat (?idx * ways e + k) AND NOT DIRTY"
    by (auto simp: e')
  have "k = ?way"
  proof (rule ccontr)
    assume ne: "k \<noteq> ?way"
    have s: "sets e \<noteq> 0" and b: "unat (sets e) * unat (ways e) < 2 ^ 64"
      using assms(1) by (auto simp: well_formed_def is_pow2_def)
    have "unat (?idx * ways e + k) \<noteq> ?j"
      using entry_index_inject [OF b set_index_less [OF s] k(1) v(2)] ne by blast
    then have "tags e' ! unat (?idx * ways e + k) = tags e ! unat (?idx * ways e + k)"
      by (simp add: e')
    with k(3) none k(1) show False
      by simp
  qed
  with k(2) v(3) have "slot_get e' p = ?T"
    by (simp add: slot_get_def e')
  with p show ?thesis
    by blast
next
  case Fully_Associative
  let ?key = "drop_bit (unat (idx_shift e)) addr"
  from assms(3) Fully_Associative have "fa_cache_sim_t_victimize e addr = Inr (victim, e')"
    by (simp add: victimize_def)
  then obtain m where m: "fa_tags e' = map_assign ?key (?key OR VALID) m"
    "idx_shift e' = idx_shift e" "variant e' = variant e"
    by (auto simp: fa_cache_sim_t_victimize_def Let_def split_beta split: if_splits)
  then have "check_tag e' addr = Some (Map_Entry ?key)"
    using Fully_Associative
    by (simp add: check_tag_def fa_cache_sim_t_check_tag_def map_of_map_assign)
  moreover have "slot_get e' (Map_Entry ?key) = ?key OR VALID"
    using m by (simp add: slot_get_def map_of_map_assign)
  ultimately show ?thesis
    by blast
qed

lemma push_bit_aligned:
  fixes x :: u64
  shows "push_bit s x AND mask s = 0"
  by (rule bit_word_eqI) (auto simp: bit_simps)

lemma push_drop_line:
  fixes a :: u64
  shows "push_bit s (drop_bit s a) = a AND NOT (mask s)"
  by (rule bit_word_eqI) (auto simp: bit_simps)

lemma victim_tag_bits:
  fixes victim a :: u64
  assumes "2 \<le> s" and "victim AND NOT DIRTY = drop_bit s a OR VALID"
  shows "victim AND NOT (VALID OR DIRTY) = drop_bit s a"
proof (rule bit_word_eqI)
  fix n
  assume n: "n < LENGTH(64)"
  have "bit (victim AND NOT DIRTY) n = bit (drop_bit s a OR VALID) n"
    by (simp only: assms(2))
  then show "bit (victim AND NOT (VALID OR DIRTY)) n = bit (drop_bit s a) n"
    using tag_bits_clear [OF assms(1), of a] n
    by (cases "n = 62"; cases "n = 63")
      (auto simp: bit_and_iff bit_or_iff bit_not_iff bit_VALID bit_DIRTY)
qed

lemma slot_get_counters [simp]:
  "slot_get (e\<lparr> read_accesses := a \<rparr>) p = slot_get e p"
  "slot_get (e\<lparr> read_misses := a \<rparr>) p = slot_get e p"
  "slot_get (e\<lparr> bytes_read := a \<rparr>) p = slot_get e p"
  "slot_get (e\<lparr> write_accesses := a \<rparr>) p = slot_get e p"
  "slot_get (e\<lparr> write_misses := a \<rparr>) p = slot_get e p"
  "slot_get (e\<lparr> bytes_written := a \<rparr>) p = slot_get e p"
  "slot_get (e\<lparr> writebacks := a \<rparr>) p = slot_get e p"
  by (simp_all add: slot_get_def split: slot.splits)

lemma or_DIRTY_not_DIRTY: "(x OR DIRTY) AND NOT DIRTY = x AND NOT DIRTY"
  by (rule bit_word_eqI) (auto simp: bit_simps)

lemma access_miss_result:
  fixes e :: cache_sim_t and addr :: u64 and store :: bool
  assumes wf: "well_formed e" and miss: "check_tag e addr = None"
  defines "e3 \<equiv> (if store then e\<lparr> write_misses := write_misses e + 1 \<rparr>
                  else e\<lparr> read_misses := read_misses e + 1 \<rparr>)"
    and "tag \<equiv> drop_bit (unat (idx_shift e)) addr"
  shows "\<exists>victim e4 p.
     victimize e3 addr = Inr (victim, e4) \<and>
     check_tag e4 addr = Some p \<and> slot_get e4 p = tag OR VALID \<and>
     (let wb = (victim AND (VALID OR DIRTY) = (VALID OR DIRTY));
          dirty_addr = push_bit (unat (idx_shift e)) (victim AND NOT (VALID OR DIRTY));
          e5 = e4\<lparr> writebacks := writebacks e + (if wb then 1 else 0) \<rparr>;
          e' = (if store then slot_set p (tag OR VALID OR DIRTY) e5 else e5)
      in access_miss e addr store =
           Inr (e',
             (if log e then [Log_Miss (name e) store addr] else []) @
             (if wb \<and> miss_handler e \<noteq> None
              then [Miss_Handler_Access dirty_addr (linesz e) True] else []) @
             (if miss_handler e \<noteq> None
              then [Miss_Handler_Access (addr AND NOT (linesz e - 1)) (linesz e) False] else [])) \<and>
         check_tag e' addr = Some p \<and>
         slot_get e' p = (if store then tag OR VALID OR DIRTY else tag OR VALID) \<and>
         dirty_addr AND (linesz e - 1) = 0 \<and>
         (\<forall>a. victim AND NOT DIRTY = drop_bit (unat (idx_shift e)) a OR VALID \<longrightarrow>
              dirty_addr = a AND NOT (linesz e - 1)))"
proof -
  let ?s = "unat (idx_shift e)"
  have wf3: "well_formed e3" and miss3: "check_tag e3 addr = None"
    using wf miss by (simp_all add: e3_def)
  from victimize_total [OF wf3] obtain victim e4 where v: "victimize e3 addr = Inr (victim, e4)"
    by blast
  from victimize_installs [OF wf3 miss3 v] obtain p where
    p: "check_tag e4 addr = Some p" "slot_get e4 p = tag OR VALID"
    by (auto simp: tag_def e3_def)
  note f = victimize_fields [OF v]
  have wf4: "well_formed e4"
    using victimize_well_formed [OF wf3 v] .
  let ?wb = "victim AND (VALID OR DIRTY) = (VALID OR DIRTY)"
  let ?dirty_addr = "push_bit ?s (victim AND NOT (VALID OR DIRTY))"
  let ?e5 = "e4\<lparr> writebacks := writebacks e + (if ?wb then 1 else 0) \<rparr>"
  let ?e' = "if store then slot_set p (tag OR VALID OR DIRTY) ?e5 else ?e5"
  have e5: "(if ?wb then e4\<lparr> writebacks := writebacks e4 + 1 \<rparr> else e4) = ?e5"
    using f by (simp add: e3_def)
  have wf5: "well_formed ?e5" and p5: "check_tag ?e5 addr = Some p" "slot_get ?e5 p = tag OR VALID"
    using wf4 p by simp_all
  have s: "2 \<le> ?s" "?s < 64" "linesz e = 2 ^ ?s"
    using wf by (simp_all add: well_formed_def)
  then have m: "linesz e - 1 = mask ?s"
    by (simp add: line_mask)
  have same: "e4\<lparr> writebacks := writebacks e \<rparr> = e4"
    using f by (simp add: e3_def)
  have fe: "log e4 = log e" "name e4 = name e" "miss_handler e4 = miss_handler e"
    "linesz e4 = linesz e" "idx_shift e4 = idx_shift e" "writebacks e4 = writebacks e"
    using f by (simp_all add: e3_def)
  have acc: "access_miss e addr store =
           Inr (?e',
             (if log e then [Log_Miss (name e) store addr] else []) @
             (if ?wb \<and> miss_handler e \<noteq> None
              then [Miss_Handler_Access ?dirty_addr (linesz e) True] else []) @
             (if miss_handler e \<noteq> None
              then [Miss_Handler_Access (addr AND NOT (linesz e - 1)) (linesz e) False] else []))"
  proof (cases store)
    case True
    with v have v': "victimize (e\<lparr> write_misses := write_misses e + 1 \<rparr>) addr = Inr (victim, e4)"
      by (simp add: e3_def)
    show ?thesis
      unfolding access_miss_def Let_def using True
      by (simp add: v' p fe same or.assoc)
  next
    case False
    with v have v': "victimize (e\<lparr> read_misses := read_misses e + 1 \<rparr>) addr = Inr (victim, e4)"
      by (simp add: e3_def)
    show ?thesis
      unfolding access_miss_def Let_def using False
      by (simp add: v' fe same)
  qed
  have ct: "check_tag ?e' addr = Some p"
  proof (cases store)
    case True
    have "(tag OR VALID OR DIRTY) AND NOT DIRTY = (tag OR VALID) AND NOT DIRTY"
      using or_DIRTY_not_DIRTY [of "tag OR VALID"] by (simp only: or.assoc)
    then have "(tag OR VALID OR DIRTY) AND NOT DIRTY = slot_get ?e5 p AND NOT DIRTY"
      by (simp only: p5(2))
    then have "check_tag (slot_set p (tag OR VALID OR DIRTY) ?e5) addr = check_tag ?e5 addr"
      by (rule check_tag_slot_set_DIRTY)
    with p5(1) show ?thesis
      by (simp only: True if_True)
  next
    case False
    with p5(1) show ?thesis
      by (simp only: if_False)
  qed
  have sg: "slot_get ?e' p = (if store then tag OR VALID OR DIRTY else tag OR VALID)"
  proof (cases store)
    case True
    have "slot_get (slot_set p (tag OR VALID OR DIRTY) ?e5) p = tag OR VALID OR DIRTY"
      using wf5 p5(1) by (rule check_tag_slot_valid)
    then show ?thesis
      by (simp only: True if_True)
  next
    case False
    with p5(2) show ?thesis
      by (simp only: if_False)
  qed
  have al: "?dirty_addr AND (linesz e - 1) = 0"
    by (simp only: m push_bit_aligned)
  have rc: "?dirty_addr = a AND NOT (linesz e - 1)"
    if "victim AND NOT DIRTY = drop_bit ?s a OR VALID" for a
    using victim_tag_bits [OF s(1) that] by (simp only: m push_drop_line)
  show ?thesis
    using v p acc ct sg al rc unfolding Let_def by blast
qed

text \<open>
  What \<open>victimize\<close> returns, and where \<open>check_tag\<close> then finds the line, when the line
  was not found before.
\<close>

lemma victimize_result:
  fixes e :: cache_sim_t and addr :: u64
  assumes wf: "well_formed e" and miss: "check_tag e addr = None"
  defines "tag \<equiv> drop_bit (unat (idx_shift e)) addr"
    and "way \<equiv> ucast (fst (lfsr_next (lfsr e))) mod ways e"
  defines "i \<equiv> unat ((tag AND (sets e - 1)) * ways e + way)"
  shows "variant e = Set_Associative \<Longrightarrow>
           victimize e addr =
             Inr (tags e ! i,
                  e\<lparr> lfsr := snd (lfsr_next (lfsr e)), tags := (tags e)[i := tag OR VALID] \<rparr>) \<and>
           i < length (tags e) \<and>
           check_tag (e\<lparr> lfsr := snd (lfsr_next (lfsr e)), tags := (tags e)[i := tag OR VALID] \<rparr>)
             addr = Some (Array_Entry i)"
    and "variant e = Fully_Associative \<Longrightarrow> length (fa_tags e) = unat (ways e) \<Longrightarrow>
           victimize e addr =
             Inr (snd (fa_tags e ! unat way),
                  e\<lparr> lfsr := snd (lfsr_next (lfsr e)),
                     fa_tags := map_assign tag (tag OR VALID)
                                  (map_erase_at (unat way) (fa_tags e)) \<rparr>) \<and>
           unat way < length (fa_tags e) \<and>
           check_tag (e\<lparr> lfsr := snd (lfsr_next (lfsr e)),
                        fa_tags := map_assign tag (tag OR VALID)
                                  (map_erase_at (unat way) (fa_tags e)) \<rparr>) addr =
             Some (Map_Entry tag)"
    and "variant e = Fully_Associative \<Longrightarrow> length (fa_tags e) \<noteq> unat (ways e) \<Longrightarrow>
           victimize e addr =
             Inr (0, e\<lparr> fa_tags := map_assign tag (tag OR VALID) (fa_tags e) \<rparr>) \<and>
           check_tag (e\<lparr> fa_tags := map_assign tag (tag OR VALID) (fa_tags e) \<rparr>) addr =
             Some (Map_Entry tag)"
proof -
  {
    assume sa: "variant e = Set_Associative"
    let ?idx = "tag AND (sets e - 1)"
    let ?T = "tag OR VALID"
    let ?e' = "e\<lparr> lfsr := snd (lfsr_next (lfsr e)), tags := (tags e)[i := ?T] \<rparr>"
    note v = cache_sim_t_victimize_Inr(1) [OF wf, where addr = addr]
      cache_sim_t_victimize_Inr(2) [OF wf]
      cache_sim_t_victimize_Inr(3) [OF wf, where addr = addr]
    have 1: "victimize e addr = Inr (tags e ! i, ?e')"
      using v(1) sa by (simp add: victimize_def tag_def way_def i_def)
    have 2: "i < length (tags e)"
      using v(3) by (simp add: tag_def way_def i_def)
    have w: "way < ways e"
      using v(2) by (simp add: way_def)
    have none: "\<forall>k. k < ways e \<longrightarrow> ?T \<noteq> tags e ! unat (?idx * ways e + k) AND NOT DIRTY"
      using miss sa
      by (simp add: check_tag_def cache_sim_t_check_tag_def Let_def check_tag_ways_None_iff tag_def)
    from victimize_check_tag [OF wf 1] obtain p where p: "check_tag ?e' addr = Some p"
      by auto
    then have "check_tag_ways ?e' ?idx ?T 0 = Some p"
      using sa by (simp add: check_tag_def cache_sim_t_check_tag_def Let_def tag_def)
    from check_tag_ways_Some [OF this] obtain k where
      k: "k < ways e" "p = Array_Entry (unat (?idx * ways e + k))"
        "?T = tags ?e' ! unat (?idx * ways e + k) AND NOT DIRTY"
      by auto
    have "k = way"
    proof (rule ccontr)
      assume ne: "k \<noteq> way"
      have s: "sets e \<noteq> 0" and b: "unat (sets e) * unat (ways e) < 2 ^ 64"
        using wf by (auto simp: well_formed_def is_pow2_def)
      have "unat (?idx * ways e + k) \<noteq> i"
        unfolding i_def using entry_index_inject [OF b set_index_less [OF s] k(1) w] ne by blast
      then have "tags ?e' ! unat (?idx * ways e + k) = tags e ! unat (?idx * ways e + k)"
        by simp
      with k(3) none k(1) show False
        by simp
    qed
    with k(2) have "p = Array_Entry i"
      by (simp add: i_def)
    with p 1 2 have "victimize e addr = Inr (tags e ! i, ?e') \<and> i < length (tags e) \<and>
        check_tag ?e' addr = Some (Array_Entry i)"
      by simp
  }
  then show "variant e = Set_Associative \<Longrightarrow>
           victimize e addr =
             Inr (tags e ! i,
                  e\<lparr> lfsr := snd (lfsr_next (lfsr e)), tags := (tags e)[i := tag OR VALID] \<rparr>) \<and>
           i < length (tags e) \<and>
           check_tag (e\<lparr> lfsr := snd (lfsr_next (lfsr e)), tags := (tags e)[i := tag OR VALID] \<rparr>)
             addr = Some (Array_Entry i)" .
next
  assume fa: "variant e = Fully_Associative" and full: "length (fa_tags e) = unat (ways e)"
  let ?e' = "e\<lparr> lfsr := snd (lfsr_next (lfsr e)),
                     fa_tags := map_assign tag (tag OR VALID)
                                  (map_erase_at (unat way) (fa_tags e)) \<rparr>"
  have 1: "victimize e addr = Inr (snd (fa_tags e ! unat way), ?e')"
    using fa_cache_sim_t_victimize_Inr [OF wf, where addr = addr] fa full
    by (simp add: victimize_def tag_def way_def)
  have 2: "unat way < length (fa_tags e)"
    using victim_offset_less [OF wf] full by (simp add: way_def)
  have 3: "check_tag ?e' addr = Some (Map_Entry tag)"
    using fa by (simp add: check_tag_def fa_cache_sim_t_check_tag_def map_of_map_assign tag_def)
  show "victimize e addr = Inr (snd (fa_tags e ! unat way), ?e') \<and>
        unat way < length (fa_tags e) \<and> check_tag ?e' addr = Some (Map_Entry tag)"
    using 1 2 3 by simp
next
  assume fa: "variant e = Fully_Associative" and part: "length (fa_tags e) \<noteq> unat (ways e)"
  let ?e' = "e\<lparr> fa_tags := map_assign tag (tag OR VALID) (fa_tags e) \<rparr>"
  have 1: "victimize e addr = Inr (0, ?e')"
    using fa_cache_sim_t_victimize_Inr [OF wf, where addr = addr] fa part
    by (simp add: victimize_def tag_def)
  have 3: "check_tag ?e' addr = Some (Map_Entry tag)"
    using fa by (simp add: check_tag_def fa_cache_sim_t_check_tag_def map_of_map_assign tag_def)
  show "victimize e addr = Inr (0, ?e') \<and> check_tag ?e' addr = Some (Map_Entry tag)"
    using 1 3 by simp
qed

section \<open>Parsing the configuration string\<close>

lemma strchr_None_iff: "(strchr s c = None) = (c \<notin> set s)"
  by (induction s) auto

lemma strchr_append:
  "c \<notin> set S \<Longrightarrow> strchr (S @ c # r) c = Some (c # r)"
  by (induction S) auto

lemma strchr_Some:
  assumes "strchr s c = Some t"
  shows "\<exists>S r. s = S @ c # r \<and> c \<notin> set S \<and> t = c # r"
  using assms
proof (induction s)
  case Nil
  then show ?case by simp
next
  case (Cons x s)
  show ?case
  proof (cases "x = c")
    case True
    with Cons.prems show ?thesis
      by (intro exI [of _ "[]"] exI [of _ s]) simp
  next
    case False
    with Cons obtain S r where "s = S @ c # r" "c \<notin> set S" "t = c # r"
      by auto
    with False show ?thesis
      by (intro exI [of _ "x # S"] exI [of _ r]) simp
  qed
qed

lemma not_isdigit_colon: "\<not> isdigit CHR '':''" "\<not> isspace CHR '':''"
  "CHR '':'' \<noteq> CHR ''-''" "CHR '':'' \<noteq> CHR ''+''"
  by (simp_all add: isdigit_def isspace_def)

lemma atoi_digits_append:
  "\<not> isdigit c \<Longrightarrow> atoi_digits acc (X @ c # r) = atoi_digits acc X"
  by (induction X arbitrary: acc) auto

lemma atoi_append_colon: "atoi (S @ CHR '':'' # r) = atoi S"
proof (cases "dropWhile isspace S")
  case Nil
  then have "\<forall>x \<in> set S. isspace x"
    by (simp add: dropWhile_eq_Nil_conv)
  then have b: "dropWhile isspace (S @ CHR '':'' # r) = CHR '':'' # r"
    by (simp add: dropWhile_append not_isdigit_colon)
  show ?thesis
    unfolding atoi_def Let_def Nil b by (simp add: not_isdigit_colon)
next
  case (Cons c cs)
  then have "\<not> (\<forall>x \<in> set S. isspace x)"
    by (metis dropWhile_eq_Nil_conv list.distinct(1))
  then obtain x where "x \<in> set S" "\<not> isspace x"
    by blast
  then have "dropWhile isspace (S @ CHR '':'' # r) = dropWhile isspace S @ CHR '':'' # r"
    by (rule dropWhile_append1)
  then have b: "dropWhile isspace (S @ CHR '':'' # r) = c # cs @ CHR '':'' # r"
    by (simp only: Cons append_Cons)
  have d: "atoi_digits 0 (cs @ CHR '':'' # r) = atoi_digits 0 cs"
    "atoi_digits 0 (c # cs @ CHR '':'' # r) = atoi_digits 0 (c # cs)"
    using atoi_digits_append [of "CHR '':''" 0 cs r, OF not_isdigit_colon(1)]
      atoi_digits_append [of "CHR '':''" 0 "c # cs" r, OF not_isdigit_colon(1)]
    by simp_all
  have k: "atoi_digits 0 (if c = CHR ''-'' \<or> c = CHR ''+'' then cs @ CHR '':'' # r
                          else c # cs @ CHR '':'' # r) =
           atoi_digits 0 (if c = CHR ''-'' \<or> c = CHR ''+'' then cs else c # cs)"
    by (cases "c = CHR ''-'' \<or> c = CHR ''+''") (simp_all only: d if_True if_False)
  show ?thesis
    unfolding atoi_def Let_def Cons b list.case k ..
qed

lemma construct_fields:
  assumes "CHR '':'' \<notin> set S" and "CHR '':'' \<notin> set W"
  shows "construct (S @ CHR '':'' # W @ CHR '':'' # L) nm =
     (case (atoi S, atoi W, atoi L) of
        (Some s, Some w, Some l) \<Rightarrow>
          if 4 < (word_of_int w :: u64) \<and> (word_of_int s :: u64) = 1
          then fa_cache_sim_t (word_of_int w) (word_of_int l) nm
          else cache_sim_t (word_of_int s) (word_of_int w) (word_of_int l) nm
      | _ \<Rightarrow> Inl Atoi_Out_Of_Range)"
proof -
  let ?config = "S @ CHR '':'' # W @ CHR '':'' # L"
  have 1: "strchr ?config CHR '':'' = Some (CHR '':'' # W @ CHR '':'' # L)"
    using assms(1) by (rule strchr_append)
  have 2: "strchr (W @ CHR '':'' # L) CHR '':'' = Some (CHR '':'' # L)"
    using assms(2) by (rule strchr_append)
  have 3: "take (length ?config - length (W @ CHR '':'' # L)) ?config = S @ [CHR '':'']"
    by simp
  have 4: "take (length (W @ CHR '':'' # L) - length L) (W @ CHR '':'' # L) = W @ [CHR '':'']"
    by simp
  have 5: "atoi (S @ [CHR '':'']) = atoi S" "atoi (W @ [CHR '':'']) = atoi W"
    by (rule atoi_append_colon)+
  show ?thesis
    unfolding construct_def 1 option.case Let_def list.sel 2 3 4 5
    by (simp split: option.splits)
qed

lemma construct_missing_separator:
  assumes "length (filter (\<lambda>c. c = CHR '':'') config) < 2"
  shows "construct config nm = Inl Usage_Exit"
proof (cases "strchr config CHR '':''")
  case None
  then show ?thesis
    by (simp add: construct_def)
next
  case (Some wp0)
  from strchr_Some [OF this] obtain S r where
    c: "config = S @ CHR '':'' # r" "CHR '':'' \<notin> set S" "wp0 = CHR '':'' # r"
    by blast
  have "filter (\<lambda>c. c = CHR '':'') r = []"
    using assms c(1) by (cases "filter (\<lambda>c. c = CHR '':'') r") simp_all
  then have "CHR '':'' \<notin> set r"
    by (auto simp: filter_empty_conv)
  then have "strchr r CHR '':'' = None"
    by (simp add: strchr_None_iff)
  with Some c(3) show ?thesis
    by (simp add: construct_def Let_def)
qed

lemma atoi_range:
  assumes "atoi S = Some s"
  shows "- (2 ^ 31) \<le> s \<and> s < 2 ^ 31"
  using assms by (auto simp: atoi_def Let_def split: if_splits)

lemma word_of_int_pos_neq_0:
  assumes "1 \<le> w" and "w < 2 ^ 31"
  shows "(word_of_int w :: u64) \<noteq> 0"
proof
  assume "(word_of_int w :: u64) = 0"
  then have "uint (word_of_int w :: u64) = 0"
    by simp
  moreover have "uint (word_of_int w :: u64) = w"
    using assms by (intro uint_word_of_int_nonneg) simp_all
  ultimately show False
    using assms(1) by simp
qed

text \<open>Every string from which \<open>construct\<close> returns an engine has three fields that \<open>atoi\<close> reads.\<close>

lemma construct_Inr_fields:
  assumes "construct config nm = Inr e"
  shows "\<exists>S W L s w l. config = S @ CHR '':'' # W @ CHR '':'' # L \<and>
           CHR '':'' \<notin> set S \<and> CHR '':'' \<notin> set W \<and>
           atoi S = Some s \<and> atoi W = Some w \<and> atoi L = Some l"
proof -
  from assms obtain wp0 where wp0: "strchr config CHR '':'' = Some wp0"
    by (auto simp: construct_def split: option.splits)
  from strchr_Some [OF wp0] obtain S r where
    c: "config = S @ CHR '':'' # r" "CHR '':'' \<notin> set S" "wp0 = CHR '':'' # r"
    by blast
  from assms wp0 c(3) obtain bp0 where bp0: "strchr r CHR '':'' = Some bp0"
    by (auto simp: construct_def Let_def split: option.splits)
  from strchr_Some [OF bp0] obtain W L where
    r: "r = W @ CHR '':'' # L" "CHR '':'' \<notin> set W"
    by blast
  have cfg: "config = S @ CHR '':'' # W @ CHR '':'' # L"
    using c(1) r(1) by simp
  from assms have "(case (atoi S, atoi W, atoi L) of
        (Some s, Some w, Some l) \<Rightarrow>
          if 4 < (word_of_int w :: u64) \<and> (word_of_int s :: u64) = 1
          then fa_cache_sim_t (word_of_int w) (word_of_int l) nm
          else cache_sim_t (word_of_int s) (word_of_int w) (word_of_int l) nm
      | _ \<Rightarrow> Inl Atoi_Out_Of_Range) = Inr e"
    unfolding cfg construct_fields [OF c(2) r(2)] .
  then obtain s w l where "atoi S = Some s" "atoi W = Some w" "atoi L = Some l"
    by (auto split: option.splits)
  with cfg c(2) r(2) show ?thesis
    by blast
qed

lemma replicate_4: "replicate 4 x = [x, x, x, x]"
  by (simp add: numeral_eq_Suc)

lemma construct_1_4_64:
  "construct ''1:4:64'' ''D$'' = Inr (engine_4_2_64\<lparr> sets := 1, ways := 4, tags := [0, 0, 0, 0] \<rparr>)"
  by (simp add: construct_def atoi_def isspace_def isdigit_def cache_sim_t_def init_def
      new_array_def replicate_4 lfsr_t_def engine_4_2_64_def Let_def)

section \<open>What clean_invalidate does to each line\<close>

lemma cleared_tag_bits: "cleared c i v AND NOT (VALID OR DIRTY) = v AND NOT (VALID OR DIRTY)"
  by (rule bit_word_eqI) (auto simp: cleared_def Let_def bit_simps bit_VALID bit_DIRTY)

lemma cleared_not_inval: "cleared c False v AND NOT DIRTY = v AND NOT DIRTY"
  by (rule bit_word_eqI) (auto simp: cleared_def Let_def bit_simps)

lemma not_DIRTY_id:
  fixes v :: u64
  assumes "v AND DIRTY = 0"
  shows "v AND NOT DIRTY = v"
proof (rule bit_word_eqI)
  fix n
  assume "n < LENGTH(64)"
  have "bit (v AND DIRTY) n = bit (0 :: u64) n"
    by (simp only: assms)
  then show "bit (v AND NOT DIRTY) n = bit v n"
    using \<open>n < LENGTH(64)\<close> by (auto simp: bit_and_iff bit_not_iff bit_DIRTY)
qed

lemma slot_get_slot_set_other:
  "p \<noteq> q \<Longrightarrow> slot_get (slot_set q v e) p = slot_get e p"
  by (cases p; cases q) (auto simp: slot_get_def slot_set_def map_of_slot_update)

lemma slot_set_slot_set: "slot_set p v2 (slot_set p v1 e) = slot_set p v2 e"
  by (cases p) (auto simp: slot_set_def split: prod.splits)

lemma slot_set_writebacks:
  "slot_set p v (e\<lparr> writebacks := x \<rparr>) = (slot_set p v e)\<lparr> writebacks := x \<rparr>"
  by (cases p) (simp_all add: slot_set_def)

lemma slot_line_counters [simp]: "slot_line (e\<lparr> writebacks := x \<rparr>) p = slot_line e p"
  by (simp add: slot_line_def split: slot.splits)

lemma slot_line_slot_set:
  assumes "v AND NOT (VALID OR DIRTY) = slot_get e q AND NOT (VALID OR DIRTY)"
  shows "slot_line (slot_set q v e) p = slot_line e p"
proof (cases q)
  case (Array_Entry j)
  show ?thesis
  proof (cases p)
    case (Array_Entry i)
    show ?thesis
    proof (cases "i = j \<and> j < length (tags e)")
      case True
      with assms \<open>q = Array_Entry j\<close> \<open>p = Array_Entry i\<close> show ?thesis
        by (simp add: slot_line_def slot_set_def slot_get_def)
    next
      case False
      with \<open>q = Array_Entry j\<close> \<open>p = Array_Entry i\<close> show ?thesis
        by (cases "j < length (tags e)") (auto simp: slot_line_def slot_set_def list_update_beyond)
    qed
  next
    case (Map_Entry k)
    then show ?thesis
      by (simp add: slot_line_def)
  qed
next
  case (Map_Entry k)
  then show ?thesis
    by (cases p) (simp_all add: slot_line_def slot_set_def)
qed

lemma check_tag_slot_line:
  assumes "well_formed e" and "check_tag e a = Some p"
  shows "slot_line e p = drop_bit (unat (idx_shift e)) a"
proof (cases "variant e")
  case Set_Associative
  let ?s = "unat (idx_shift e)"
  from assms(2) Set_Associative have "check_tag_ways e (drop_bit ?s a AND (sets e - 1))
      (drop_bit ?s a OR VALID) 0 = Some p"
    by (simp add: check_tag_def cache_sim_t_check_tag_def Let_def)
  from check_tag_ways_Some [OF this] obtain j where
    j: "p = Array_Entry j" "drop_bit ?s a OR VALID = tags e ! j AND NOT DIRTY"
    by blast
  have "2 \<le> ?s"
    using assms(1) by (simp add: well_formed_def)
  from victim_tag_bits [OF this j(2) [symmetric]] j(1) show ?thesis
    by (simp add: slot_line_def)
next
  case Fully_Associative
  with assms(2) show ?thesis
    by (auto simp: check_tag_def fa_cache_sim_t_check_tag_def slot_line_def split: option.splits)
qed

text \<open>A write that keeps the tag bits of an entry changes no lookup of another line.\<close>

lemma check_tag_slot_set_frame:
  assumes "2 \<le> unat (idx_shift e)"
    and "slot_line e p \<noteq> drop_bit (unat (idx_shift e)) b"
    and "v AND NOT (VALID OR DIRTY) = slot_get e p AND NOT (VALID OR DIRTY)"
  shows "check_tag (slot_set p v e) b = check_tag e b"
proof (cases p)
  case (Array_Entry j)
  let ?s = "unat (idx_shift e)"
  let ?T = "drop_bit ?s b OR VALID"
  have no: "x AND NOT DIRTY \<noteq> ?T" if "x AND NOT (VALID OR DIRTY) \<noteq> drop_bit ?s b" for x :: u64
  proof
    assume "x AND NOT DIRTY = ?T"
    from victim_tag_bits [OF assms(1) this] that show False
      by simp
  qed
  have old: "tags e ! j AND NOT DIRTY \<noteq> ?T"
    using assms(2) Array_Entry by (intro no) (simp add: slot_line_def)
  have new: "v AND NOT DIRTY \<noteq> ?T"
    using assms(2,3) Array_Entry by (intro no) (simp add: slot_line_def slot_get_def)
  have "check_tag_ways (e\<lparr> tags := (tags e)[j := v] \<rparr>) idx ?T i = check_tag_ways e idx ?T i"
    for idx i
  proof (rule check_tag_ways_cong)
    fix k
    show "(?T = tags (e\<lparr> tags := (tags e)[j := v] \<rparr>) ! unat (idx * ways e + k) AND NOT DIRTY) =
          (?T = tags e ! unat (idx * ways e + k) AND NOT DIRTY)"
    proof (cases "unat (idx * ways e + k) = j \<and> j < length (tags e)")
      case True
      with old new show ?thesis
        by auto
    next
      case False
      then show ?thesis
        by (cases "j < length (tags e)") (simp_all add: list_update_beyond)
    qed
  qed simp
  with Array_Entry show ?thesis
    by (simp add: slot_set_def check_tag_def cache_sim_t_check_tag_def
        fa_cache_sim_t_check_tag_def split: variant.splits option.splits)
next
  case (Map_Entry k)
  then show ?thesis
    by (auto simp: slot_set_def check_tag_def cache_sim_t_check_tag_def
        fa_cache_sim_t_check_tag_def map_of_slot_update intro!: check_tag_ways_cong
        split: variant.splits option.splits)
qed

lemma clean_invalidate_line_None:
  "check_tag e a = None \<Longrightarrow> clean_invalidate_line c i e a = e"
  by (simp add: clean_invalidate_line_def)

text \<open>The body of the loop as one write to the entry found.\<close>

lemma clean_invalidate_line_Some:
  fixes e :: cache_sim_t and a :: u64 and p :: slot and c i :: bool
  assumes wf: "well_formed e" and p: "check_tag e a = Some p"
  defines "d \<equiv> c \<and> slot_get e p AND DIRTY \<noteq> 0"
  shows "clean_invalidate_line c i e a =
           (if d \<or> i
            then slot_set p (cleared c i (slot_get e p))
                   (e\<lparr> writebacks := writebacks e + (if d then 1 else 0) \<rparr>)
            else e)"
    and "\<not> (d \<or> i) \<Longrightarrow> cleared c i (slot_get e p) = slot_get e p"
proof -
  let ?v = "slot_get e p"
  let ?e1 = "slot_set p (?v AND NOT DIRTY) (e\<lparr> writebacks := writebacks e + 1 \<rparr>)"
  have g1: "slot_get ?e1 p = ?v AND NOT DIRTY"
    using wf p by (intro check_tag_slot_valid [where a = a]) simp_all
  have nd: "?v AND NOT DIRTY = ?v" if "\<not> d" "c"
    using that by (intro not_DIRTY_id) (simp add: d_def)
  show "clean_invalidate_line c i e a =
           (if d \<or> i
            then slot_set p (cleared c i (slot_get e p))
                   (e\<lparr> writebacks := writebacks e + (if d then 1 else 0) \<rparr>)
            else e)"
  proof (cases d)
    case True
    then have c: c and dirty: "?v AND DIRTY \<noteq> 0"
      by (simp_all add: d_def)
    show ?thesis
      using True c dirty p g1
      by (simp add: clean_invalidate_line_def Let_def cleared_def slot_set_slot_set)
  next
    case False
    then have nc: "\<not> (c \<and> ?v AND DIRTY \<noteq> 0)"
      by (simp add: d_def)
    have "cleared c True ?v = ?v AND NOT VALID"
      using nd [OF False] by (cases c) (simp_all add: cleared_def Let_def)
    with False nc p show ?thesis
      by (cases i) (auto simp: clean_invalidate_line_def Let_def)
  qed
  show "cleared c i (slot_get e p) = slot_get e p" if "\<not> (d \<or> i)"
    using that nd by (cases c) (simp_all add: cleared_def Let_def)
qed

lemma clean_invalidate_line_own:
  assumes wf: "well_formed e" and p: "check_tag e a = Some p"
  shows "slot_get (clean_invalidate_line c i e a) p = cleared c i (slot_get e p)"
    and "writebacks (clean_invalidate_line c i e a) =
           writebacks e + (if c \<and> slot_get e p AND DIRTY \<noteq> 0 then 1 else 0)"
proof -
  let ?d = "c \<and> slot_get e p AND DIRTY \<noteq> 0"
  let ?e0 = "e\<lparr> writebacks := writebacks e + (if ?d then 1 else 0) \<rparr>"
  note nf = clean_invalidate_line_Some [OF wf p, where c = c and i = i]
  have "slot_get (slot_set p (cleared c i (slot_get e p)) ?e0) p = cleared c i (slot_get e p)"
    using wf p by (intro check_tag_slot_valid [where a = a]) simp_all
  with nf show "slot_get (clean_invalidate_line c i e a) p = cleared c i (slot_get e p)"
    by (cases "?d \<or> i") simp_all
  show "writebacks (clean_invalidate_line c i e a) =
           writebacks e + (if c \<and> slot_get e p AND DIRTY \<noteq> 0 then 1 else 0)"
    using nf(1) by (cases "?d \<or> i") auto
qed

lemma clean_invalidate_line_frame:
  assumes wf: "well_formed e"
    and ne: "drop_bit (unat (idx_shift e)) b \<noteq> drop_bit (unat (idx_shift e)) a"
  shows "check_tag (clean_invalidate_line c i e a) b = check_tag e b"
proof (cases "check_tag e a")
  case None
  then show ?thesis
    by (simp add: clean_invalidate_line_None)
next
  case (Some p)
  let ?d = "c \<and> slot_get e p AND DIRTY \<noteq> 0"
  let ?e0 = "e\<lparr> writebacks := writebacks e + (if ?d then 1 else 0) \<rparr>"
  note nf = clean_invalidate_line_Some [OF wf Some, where c = c and i = i]
  have s: "2 \<le> unat (idx_shift ?e0)"
    using wf by (simp add: well_formed_def)
  have l: "slot_line ?e0 p \<noteq> drop_bit (unat (idx_shift ?e0)) b"
    using check_tag_slot_line [OF wf Some] ne by simp
  have "check_tag (slot_set p (cleared c i (slot_get e p)) ?e0) b = check_tag ?e0 b"
    using s l by (rule check_tag_slot_set_frame) (simp only: slot_get_counters cleared_tag_bits)
  with nf(1) show ?thesis
    by (cases "?d \<or> i") simp_all
qed

lemma clean_invalidate_line_other_slot:
  assumes wf: "well_formed e" and ne: "check_tag e a \<noteq> Some q"
  shows "slot_get (clean_invalidate_line c i e a) q = slot_get e q"
proof (cases "check_tag e a")
  case None
  then show ?thesis
    by (simp add: clean_invalidate_line_None)
next
  case (Some p)
  with ne have "q \<noteq> p"
    by auto
  then show ?thesis
    using clean_invalidate_line_Some(1) [OF wf Some, where c = c and i = i]
    by (simp add: slot_get_slot_set_other)
qed

lemma clean_invalidate_line_slot_line:
  assumes wf: "well_formed e"
  shows "slot_line (clean_invalidate_line c i e a) q = slot_line e q"
proof (cases "check_tag e a")
  case None
  then show ?thesis
    by (simp add: clean_invalidate_line_None)
next
  case (Some p)
  let ?d = "c \<and> slot_get e p AND DIRTY \<noteq> 0"
  let ?e0 = "e\<lparr> writebacks := writebacks e + (if ?d then 1 else 0) \<rparr>"
  have "slot_line (slot_set p (cleared c i (slot_get e p)) ?e0) q = slot_line ?e0 q"
    by (rule slot_line_slot_set) (simp only: slot_get_counters cleared_tag_bits)
  then show ?thesis
    using clean_invalidate_line_Some(1) [OF wf Some, where c = c and i = i]
    by (cases "?d \<or> i") simp_all
qed

lemma clean_invalidate_line_clean_only:
  assumes wf: "well_formed e"
  shows "check_tag (clean_invalidate_line c False e a) x = check_tag e x"
proof (cases "check_tag e a")
  case None
  then show ?thesis
    by (simp add: clean_invalidate_line_None)
next
  case (Some p)
  let ?d = "c \<and> slot_get e p AND DIRTY \<noteq> 0"
  let ?e0 = "e\<lparr> writebacks := writebacks e + (if ?d then 1 else 0) \<rparr>"
  have "check_tag (slot_set p (cleared c False (slot_get e p)) ?e0) x = check_tag ?e0 x"
    by (rule check_tag_slot_set_DIRTY) (simp only: slot_get_counters cleared_not_inval)
  then show ?thesis
    using clean_invalidate_line_Some(1) [OF wf Some, where c = c and i = False]
    by (cases ?d) simp_all
qed

lemma foldl_line_frame:
  assumes "well_formed e"
    and "\<forall>a \<in> set as. drop_bit (unat (idx_shift e)) b \<noteq> drop_bit (unat (idx_shift e)) a"
  shows "check_tag (foldl (clean_invalidate_line c i) e as) b = check_tag e b"
  using assms
proof (induction as arbitrary: e)
  case Nil
  then show ?case by simp
next
  case (Cons a as)
  let ?e1 = "clean_invalidate_line c i e a"
  have "check_tag (foldl (clean_invalidate_line c i) ?e1 as) b = check_tag ?e1 b"
    using Cons.prems by (intro Cons.IH) simp_all
  also have "\<dots> = check_tag e b"
    using Cons.prems by (intro clean_invalidate_line_frame) simp_all
  finally show ?case
    by simp
qed

lemma foldl_line_other_slot:
  assumes "well_formed e"
    and "\<forall>a \<in> set as. slot_line e q \<noteq> drop_bit (unat (idx_shift e)) a"
  shows "slot_get (foldl (clean_invalidate_line c i) e as) q = slot_get e q"
  using assms
proof (induction as arbitrary: e)
  case Nil
  then show ?case by simp
next
  case (Cons a as)
  let ?e1 = "clean_invalidate_line c i e a"
  have ne: "check_tag e a \<noteq> Some q"
    using check_tag_slot_line [OF Cons.prems(1), of a q] Cons.prems(2) by auto
  have "slot_get (foldl (clean_invalidate_line c i) ?e1 as) q = slot_get ?e1 q"
    using Cons.prems by (intro Cons.IH) (simp_all add: clean_invalidate_line_slot_line)
  also have "\<dots> = slot_get e q"
    using Cons.prems(1) ne by (rule clean_invalidate_line_other_slot)
  finally show ?case
    by simp
qed

lemma foldl_line_own:
  assumes "well_formed e"
    and "distinct (map (drop_bit (unat (idx_shift e))) as)"
    and "a \<in> set as" and "check_tag e a = Some p"
  shows "slot_get (foldl (clean_invalidate_line c i) e as) p = cleared c i (slot_get e p)"
  using assms
proof (induction as arbitrary: e)
  case Nil
  then show ?case by simp
next
  case (Cons b bs)
  let ?s = "unat (idx_shift e)"
  let ?e1 = "clean_invalidate_line c i e b"
  have wf1: "well_formed ?e1"
    using Cons.prems(1) by simp
  have nb: "\<forall>x \<in> set bs. drop_bit ?s b \<noteq> drop_bit ?s x"
    using Cons.prems(2) by auto
  show ?case
  proof (cases "a = b")
    case True
    have "slot_line ?e1 p = drop_bit ?s b"
      using check_tag_slot_line [OF Cons.prems(1,4)] True
      by (simp add: clean_invalidate_line_slot_line [OF Cons.prems(1)])
    with nb have "\<forall>x \<in> set bs. slot_line ?e1 p \<noteq> drop_bit (unat (idx_shift ?e1)) x"
      by simp
    with wf1 have "slot_get (foldl (clean_invalidate_line c i) ?e1 bs) p = slot_get ?e1 p"
      by (rule foldl_line_other_slot)
    also have "\<dots> = cleared c i (slot_get e p)"
      using Cons.prems(1,4) True by (intro clean_invalidate_line_own(1)) simp_all
    finally show ?thesis
      by simp
  next
    case False
    with Cons.prems(3) have a: "a \<in> set bs"
      by simp
    with nb have ne: "drop_bit ?s a \<noteq> drop_bit ?s b"
      by auto
    have ct: "check_tag ?e1 a = Some p"
      using clean_invalidate_line_frame [OF Cons.prems(1) ne] Cons.prems(4) by simp
    have "check_tag e b \<noteq> Some p"
      using check_tag_slot_line [OF Cons.prems(1), of b p]
        check_tag_slot_line [OF Cons.prems(1,4)] ne by auto
    then have sg: "slot_get ?e1 p = slot_get e p"
      using Cons.prems(1) by (intro clean_invalidate_line_other_slot)
    have "slot_get (foldl (clean_invalidate_line c i) ?e1 bs) p = cleared c i (slot_get ?e1 p)"
      using wf1 Cons.prems(2) a ct by (intro Cons.IH) simp_all
    with sg show ?thesis
      by simp
  qed
qed

lemma hit_dirty_frame:
  assumes "well_formed e"
    and "drop_bit (unat (idx_shift e)) a \<noteq> drop_bit (unat (idx_shift e)) b"
  shows "hit_dirty (clean_invalidate_line c i e b) a = hit_dirty e a"
proof (cases "check_tag e a")
  case None
  then show ?thesis
    using clean_invalidate_line_frame [OF assms] by (simp add: hit_dirty_def)
next
  case (Some p)
  have "check_tag e b \<noteq> Some p"
    using check_tag_slot_line [OF assms(1), of b p] check_tag_slot_line [OF assms(1) Some] assms(2)
    by auto
  then have "slot_get (clean_invalidate_line c i e b) p = slot_get e p"
    using assms(1) by (intro clean_invalidate_line_other_slot)
  with Some show ?thesis
    using clean_invalidate_line_frame [OF assms] by (simp add: hit_dirty_def)
qed

lemma clean_invalidate_line_writebacks:
  assumes "well_formed e"
  shows "writebacks (clean_invalidate_line c i e a) =
           writebacks e + (if c \<and> hit_dirty e a then 1 else 0)"
proof (cases "check_tag e a")
  case None
  then show ?thesis
    by (simp add: clean_invalidate_line_None hit_dirty_def)
next
  case (Some p)
  with clean_invalidate_line_own(2) [OF assms Some] show ?thesis
    by (simp add: hit_dirty_def)
qed

lemma foldl_line_writebacks:
  assumes "well_formed e" and "distinct (map (drop_bit (unat (idx_shift e))) as)"
  shows "writebacks (foldl (clean_invalidate_line c i) e as) =
           writebacks e + (if c then of_nat (length (filter (hit_dirty e) as)) else 0)"
  using assms
proof (induction as arbitrary: e)
  case Nil
  then show ?case by simp
next
  case (Cons b bs)
  let ?s = "unat (idx_shift e)"
  let ?e1 = "clean_invalidate_line c i e b"
  have wf1: "well_formed ?e1"
    using Cons.prems(1) by simp
  have "\<forall>x \<in> set bs. drop_bit ?s b \<noteq> drop_bit ?s x"
    using Cons.prems(2) by auto
  then have nb: "\<forall>x \<in> set bs. drop_bit ?s x \<noteq> drop_bit ?s b"
    by metis
  have f: "filter (hit_dirty ?e1) bs = filter (hit_dirty e) bs"
    using nb hit_dirty_frame [OF Cons.prems(1)] by (intro filter_cong) auto
  have "writebacks (foldl (clean_invalidate_line c i) ?e1 bs) =
      writebacks ?e1 + (if c then of_nat (length (filter (hit_dirty ?e1) bs)) else 0)"
    using wf1 Cons.prems(2) by (intro Cons.IH) simp_all
  then have ih: "writebacks (foldl (clean_invalidate_line c i) ?e1 bs) =
      writebacks ?e1 + (if c then of_nat (length (filter (hit_dirty e) bs)) else 0)"
    by (simp only: f)
  note st = clean_invalidate_line_writebacks [OF Cons.prems(1), of c i b]
  show ?case
    using ih st by (cases c; cases "hit_dirty e b") simp_all
qed

lemma foldl_line_clean_only:
  assumes "well_formed e"
  shows "check_tag (foldl (clean_invalidate_line c False) e as) x = check_tag e x"
  using assms
proof (induction as arbitrary: e)
  case Nil
  then show ?case by simp
next
  case (Cons a as)
  then show ?case
    by (simp add: clean_invalidate_line_clean_only)
qed

lemma access_hit:
  assumes "check_tag e a = Some p"
  shows "\<exists>e'. access e a bytes store = Inr (e', []) \<and> read_misses e' = read_misses e \<and>
              write_misses e' = write_misses e \<and> writebacks e' = writebacks e"
  using assms by (cases store) (simp_all add: access_def Let_def)

section \<open>The lines of a range\<close>

lemma aligned_iff:
  fixes a :: u64
  shows "(a AND mask s = 0) = (2 ^ s dvd unat a)"
proof -
  have "(a AND mask s = 0) = (take_bit s a = 0)"
    by (simp add: take_bit_eq_mask)
  also have "\<dots> = (unat (take_bit s a) = 0)"
    by (simp add: unat_eq_zero)
  also have "\<dots> = (take_bit s (unat a) = 0)"
    by (simp add: unsigned_take_bit_eq)
  also have "\<dots> = (2 ^ s dvd unat a)"
    by (simp only: take_bit_eq_0_iff)
  finally show ?thesis .
qed

lemma aligned_le_iff:
  fixes cur a :: u64
  assumes "s < 64" and "2 ^ s dvd unat cur" and "2 ^ s dvd unat a" and "cur < end_addr"
    and "2 ^ s dvd unat end_addr"
  shows "(cur \<le> a) = (a = cur \<or> cur + 2 ^ s \<le> a)"
proof
  assume le: "cur \<le> a"
  show "a = cur \<or> cur + 2 ^ s \<le> a"
  proof (cases "a = cur")
    case False
    with le have "cur < a"
      by simp
    from aligned_step [OF assms(1,2,3) this] have "unat (cur + 2 ^ s) \<le> unat a"
      by simp
    then show ?thesis
      by (simp add: word_le_nat_alt)
  qed simp
next
  assume "a = cur \<or> cur + 2 ^ s \<le> a"
  then show "cur \<le> a"
  proof
    assume "cur + 2 ^ s \<le> a"
    then have "unat (cur + 2 ^ s) \<le> unat a"
      by (simp only: word_le_nat_alt)
    with aligned_step(1) [OF assms(1,2,5,4)] show ?thesis
      by (simp add: word_le_nat_alt)
  qed simp
qed

lemma line_addrs_mem:
  fixes cur end_addr :: u64
  assumes "s < 64" and "2 ^ s dvd unat end_addr" and "2 ^ s dvd unat cur"
  shows "(a \<in> set (line_addrs cur end_addr (2 ^ s))) =
           (cur \<le> a \<and> a < end_addr \<and> 2 ^ s dvd unat a)"
  using assms(3)
proof (induction "unat end_addr - unat cur" arbitrary: cur rule: less_induct)
  case less
  show ?case
  proof (cases "cur < end_addr")
    case False
    then show ?thesis
      by (auto simp: line_addrs_Nil)
  next
    case True
    note st = aligned_step [OF assms(1) less.prems assms(2) True]
    have "(0::nat) < 2 ^ s"
      by simp
    then have "unat end_addr - unat (cur + 2 ^ s) < unat end_addr - unat cur"
      using st by linarith
    moreover have "2 ^ s dvd unat (cur + 2 ^ s)"
      using st(1) less.prems by simp
    ultimately have ih: "(a \<in> set (line_addrs (cur + 2 ^ s) end_addr (2 ^ s))) =
           (cur + 2 ^ s \<le> a \<and> a < end_addr \<and> 2 ^ s dvd unat a)"
      by (rule less.hyps)
    show ?thesis
    proof (cases "2 ^ s dvd unat a")
      case al: True
      have "(cur \<le> a) = (a = cur \<or> cur + 2 ^ s \<le> a)"
        using assms(1) less.prems al True assms(2) by (rule aligned_le_iff)
      with True al show ?thesis
        by (auto simp: line_addrs_Cons [OF assms(1) less.prems assms(2) True] ih)
    next
      case False
      with less.prems show ?thesis
        by (auto simp: line_addrs_Cons [OF assms(1) less.prems assms(2) True] ih)
    qed
  qed
qed

lemma line_addrs_distinct:
  fixes cur end_addr :: u64
  assumes "s < 64" and "2 ^ s dvd unat end_addr" and "2 ^ s dvd unat cur"
  shows "distinct (line_addrs cur end_addr (2 ^ s))"
  using assms(3)
proof (induction "unat end_addr - unat cur" arbitrary: cur rule: less_induct)
  case less
  show ?case
  proof (cases "cur < end_addr")
    case False
    then show ?thesis
      by (simp add: line_addrs_Nil)
  next
    case True
    note st = aligned_step [OF assms(1) less.prems assms(2) True]
    have "(0::nat) < 2 ^ s"
      by simp
    then have d: "unat end_addr - unat (cur + 2 ^ s) < unat end_addr - unat cur"
      using st by linarith
    have al: "2 ^ s dvd unat (cur + 2 ^ s)"
      using st(1) less.prems by simp
    have "distinct (line_addrs (cur + 2 ^ s) end_addr (2 ^ s))"
      using d al by (rule less.hyps)
    moreover have "cur \<notin> set (line_addrs (cur + 2 ^ s) end_addr (2 ^ s))"
    proof
      assume "cur \<in> set (line_addrs (cur + 2 ^ s) end_addr (2 ^ s))"
      then have "cur + 2 ^ s \<le> cur"
        by (simp add: line_addrs_mem [OF assms(1,2) al])
      then have "unat (cur + 2 ^ s) \<le> unat cur"
        by (simp only: word_le_nat_alt)
      with st(1) \<open>(0::nat) < 2 ^ s\<close> show False
        by simp
    qed
    ultimately show ?thesis
      by (simp add: line_addrs_Cons [OF assms(1) less.prems assms(2) True])
  qed
qed

lemma aligned_and_not_mask:
  fixes a :: u64
  assumes "a AND mask s = 0"
  shows "a AND NOT (mask s) = a"
proof (rule bit_word_eqI)
  fix n
  assume n: "n < LENGTH(64)"
  have "bit (a AND mask s) n = bit (0 :: u64) n"
    by (simp only: assms)
  then show "bit (a AND NOT (mask s)) n = bit a n"
    using n by (auto simp: bit_and_iff bit_not_iff bit_mask_iff)
qed

lemma aligned_tag_inject:
  fixes a b :: u64
  assumes "2 ^ s dvd unat a" and "2 ^ s dvd unat b" and "drop_bit s a = drop_bit s b"
  shows "a = b"
proof -
  have m: "a AND mask s = 0" "b AND mask s = 0"
    using assms(1,2) by (simp_all only: aligned_iff)
  have "a = a AND NOT (mask s)"
    using aligned_and_not_mask [OF m(1)] by (rule sym)
  also have "\<dots> = b AND NOT (mask s)"
    using assms(3) by (simp only: same_line_iff)
  also have "\<dots> = b"
    using m(2) by (rule aligned_and_not_mask)
  finally show ?thesis .
qed

lemma line_addrs_distinct_tags:
  fixes cur end_addr :: u64
  assumes "s < 64" and "2 ^ s dvd unat end_addr" and "2 ^ s dvd unat cur"
  shows "distinct (map (drop_bit s) (line_addrs cur end_addr (2 ^ s)))"
proof -
  have "inj_on (drop_bit s) (set (line_addrs cur end_addr (2 ^ s)))"
    by (rule inj_onI) (auto simp: line_addrs_mem [OF assms] intro: aligned_tag_inject)
  with line_addrs_distinct [OF assms] show ?thesis
    by (simp add: distinct_map)
qed

lemma unat_line:
  fixes y :: u64
  shows "unat (y AND NOT (mask s)) = (unat y div 2 ^ s) * 2 ^ s"
proof -
  have le: "(unat y div 2 ^ s) * 2 ^ s \<le> unat y"
    by simp
  have "unat (y AND NOT (mask s)) = unat (push_bit s (drop_bit s y))"
    by (simp only: push_drop_line)
  also have "\<dots> = take_bit LENGTH(64) (push_bit s (unat (drop_bit s y)))"
    by (simp only: unsigned_push_bit_eq)
  also have "\<dots> = ((unat y div 2 ^ s) * 2 ^ s) mod 2 ^ 64"
    by (simp only: unat_drop_bit_eq) (simp add: drop_bit_eq_div push_bit_eq_mult take_bit_eq_mod)
  also have "\<dots> = (unat y div 2 ^ s) * 2 ^ s"
    using le unat_lt_2p64 [of y] by (intro mod_less) linarith
  finally show ?thesis .
qed

lemma unat_round_up:
  fixes addr bytes :: u64
  assumes "s < 64" and "unat addr + unat bytes + 2 ^ s - 1 < 2 ^ 64"
  shows "unat (addr + bytes + 2 ^ s - 1) = unat addr + unat bytes + 2 ^ s - 1"
proof -
  let ?N = "unat addr + unat bytes + 2 ^ s"
  have pos: "1 \<le> ?N"
    by (simp add: Suc_leI)
  have "addr + bytes + 2 ^ s - 1 = (of_nat ?N :: u64) - 1"
    by simp
  also have "\<dots> = of_nat (?N - 1)"
    using pos by (simp add: of_nat_diff)
  finally have "unat (addr + bytes + 2 ^ s - 1) = (?N - 1) mod 2 ^ 64"
    by (simp only: unat_of_nat) simp
  with assms(2) show ?thesis
    by simp
qed

lemma line_covers:
  fixes addr bytes x :: u64
  assumes "s < 64" and "unat addr + unat bytes + 2 ^ s - 1 < 2 ^ 64"
    and "addr \<le> x" and "x - addr < bytes"
  shows "x AND NOT (mask s) \<in>
           set (line_addrs (addr AND NOT (mask s))
                  ((addr + bytes + 2 ^ s - 1) AND NOT (mask s)) (2 ^ s))"
proof -
  let ?P = "(2::nat) ^ s"
  have P: "0 < ?P"
    by simp
  have ax: "unat addr \<le> unat x"
    using assms(3) by (simp only: word_le_nat_alt)
  have "unat (x - addr) = unat x - unat addr"
    using assms(3) by (simp add: unat_sub)
  moreover have "unat (x - addr) < unat bytes"
    using assms(4) by (simp only: word_less_nat_alt)
  ultimately have xb: "unat x < unat addr + unat bytes"
    using ax by linarith
  have 1: "addr AND NOT (mask s) \<le> x AND NOT (mask s)"
    using ax by (simp add: word_le_nat_alt unat_line div_le_mono)
  have "unat x + ?P \<le> unat addr + unat bytes + ?P - 1"
    using xb by linarith
  then have "(unat x + ?P) div ?P \<le> (unat addr + unat bytes + ?P - 1) div ?P"
    by (rule div_le_mono)
  then have "unat x div ?P < (unat addr + unat bytes + ?P - 1) div ?P"
    using P by (simp add: div_add_self2)
  then have "(unat x div ?P) * ?P < ((unat addr + unat bytes + ?P - 1) div ?P) * ?P"
    using P by simp
  then have 2: "x AND NOT (mask s) < (addr + bytes + 2 ^ s - 1) AND NOT (mask s)"
    by (simp only: word_less_nat_alt unat_line unat_round_up [OF assms(1,2)])
  show ?thesis
    using 1 2 by (simp only: line_addrs_mem [OF assms(1) aligned_dvd aligned_dvd] aligned_dvd)
qed

lemma cleared_bits:
  "bit (cleared c i v) 63 = (bit v 63 \<and> \<not> i)" "bit (cleared c i v) 62 = (bit v 62 \<and> \<not> c)"
  by (auto simp: cleared_def Let_def bit_and_iff bit_not_iff bit_VALID bit_DIRTY)

text \<open>
  In the set-associative engine an entry that \<open>check_tag\<close> returns has VALID set, so the
  lines at which the loop of \<open>clean_invalidate\<close> counts a writeback are the resident
  dirty lines. In the fully-associative engine they need not be.
\<close>

lemma hit_dirty_resident_dirty:
  assumes "variant e = Set_Associative"
  shows "hit_dirty e a = resident_dirty e a"
proof (cases "check_tag e a")
  case None
  then show ?thesis
    by (simp add: hit_dirty_def resident_dirty_def)
next
  case (Some p)
  let ?tag = "drop_bit (unat (idx_shift e)) a OR VALID"
  from Some assms have "check_tag_ways e (drop_bit (unat (idx_shift e)) a AND (sets e - 1)) ?tag 0 =
      Some p"
    by (simp add: check_tag_def cache_sim_t_check_tag_def Let_def)
  from check_tag_ways_Some [OF this] obtain j where
    j: "p = Array_Entry j" "?tag = tags e ! j AND NOT DIRTY"
    by blast
  have "bit (tags e ! j AND NOT DIRTY) 63 = bit ?tag 63"
    by (simp only: j(2))
  then have "bit (tags e ! j) 63"
    by (simp add: bit_and_iff bit_or_iff bit_VALID)
  then have "bit (tags e ! j AND VALID) 63"
    by (simp add: bit_and_iff bit_VALID)
  then have "tags e ! j AND VALID \<noteq> 0"
    by auto
  with Some j(1) show ?thesis
    by (simp add: hit_dirty_def resident_dirty_def slot_get_def)
qed

lemma run_top_4_2_64:
  "run engine_4_2_64 [Access 0xFFFFFFFFFFFFFFC1 1 True] = Some engine_4_2_64_top"
  by (simp add: eval_defs engine_4_2_64_def engine_4_2_64_top_def check_tag_ways.simps)

lemma run_invalidated_1_8_64:
  "run engine_1_8_64 [Access 0 1 True, Clean_Invalidate 0 1 False True] =
     Some engine_1_8_64_invalidated"
  by (simp add: eval_defs engine_1_8_64_def engine_1_8_64_invalidated_def
      clean_invalidate_loop.simps)

section \<open>Cleaning and invalidating a range that does not wrap\<close>

text \<open>
  Let \<open>e\<close> be an engine reached from the factory (with \<open>ways\<close> not zero) by any sequence
  of operations, and suppose \<open>addr + bytes + linesz - 1\<close> does not exceed \<open>2 ^ 64 - 1\<close>.
  Then \<open>clean_invalidate e addr bytes clean inval\<close> returns, and

   \<^item> the resulting engine is the loop body folded over \<open>lines\<close>, the line-aligned addresses
     from \<open>start_addr\<close> up to (not including) \<open>end_addr\<close>, each visited once; the line of
     every byte of \<open>[addr, addr + bytes)\<close> is among them;
   \<^item> the entry that \<open>check_tag\<close> returns for a visited line ends up as
     \<open>cleared clean inval\<close> of what it was: VALID stays set exactly when it was set and
     \<open>inval\<close> is false, DIRTY stays set exactly when it was set and \<open>clean\<close> is false;
   \<^item> \<open>writebacks\<close> grows (modulo \<open>2 ^ 64\<close>) by the number of visited lines for which
     \<open>check_tag\<close> returned an entry with DIRTY set when \<open>clean\<close> is true, and not at all
     otherwise;
   \<^item> the call is forwarded once to the next-level engine, with the same four arguments,
     exactly when one is linked, whether or not any line matched;
   \<^item> when \<open>inval\<close> is false every lookup answers as before, so an access to any line that
     \<open>check_tag\<close> found is a hit: it returns with no event and leaves both miss counters
     alone.
\<close>

lemma clean_invalidate_in_range:
  fixes e :: cache_sim_t and addr bytes :: u64 and clean inval :: bool
  assumes "construct config nm = Inr e0" and "ways e0 \<noteq> 0" and "run e0 ops = Some e"
    and nowrap: "unat addr + unat bytes + unat (linesz e) - 1 < 2 ^ 64"
  defines "start_addr \<equiv> addr AND NOT (linesz e - 1)"
    and "end_addr \<equiv> (addr + bytes + linesz e - 1) AND NOT (linesz e - 1)"
  defines "lines \<equiv> line_addrs start_addr end_addr (linesz e)"
  shows "\<exists>e'.
     clean_invalidate e addr bytes clean inval =
       Some (e', if miss_handler e \<noteq> None
                 then [Miss_Handler_Clean_Invalidate addr bytes clean inval] else []) \<and>
     e' = foldl (clean_invalidate_line clean inval) e lines \<and>
     distinct lines \<and>
     (\<forall>a. (a \<in> set lines) = (start_addr \<le> a \<and> a < end_addr \<and> a AND (linesz e - 1) = 0)) \<and>
     (\<forall>x. addr \<le> x \<and> x - addr < bytes \<longrightarrow> x AND NOT (linesz e - 1) \<in> set lines) \<and>
     (\<forall>a p. a \<in> set lines \<and> check_tag e a = Some p \<longrightarrow>
        slot_get e' p = cleared clean inval (slot_get e p) \<and>
        bit (slot_get e' p) 63 = (bit (slot_get e p) 63 \<and> \<not> inval) \<and>
        bit (slot_get e' p) 62 = (bit (slot_get e p) 62 \<and> \<not> clean)) \<and>
     writebacks e' =
       writebacks e + (if clean then of_nat (length (filter (hit_dirty e) lines)) else 0) \<and>
     (\<not> inval \<longrightarrow>
        (\<forall>a. check_tag e' a = check_tag e a) \<and>
        (\<forall>a bytes' store. check_tag e a \<noteq> None \<longrightarrow>
           (\<exists>e''. access e' a bytes' store = Inr (e'', []) \<and>
                  read_misses e'' = read_misses e' \<and> write_misses e'' = write_misses e')))"
proof -
  have "well_formed e0"
    using assms(1,2) by (rule construct_well_formed)
  with run_well_formed [of e0 ops] assms(3) have wf: "well_formed e"
    by auto
  define s where "s = unat (idx_shift e)"
  have s: "s < 64" "linesz e = 2 ^ s"
    using wf by (simp_all add: well_formed_def s_def)
  then have m: "linesz e - 1 = mask s"
    by (simp add: line_mask)
  have al: "2 ^ s dvd unat start_addr" "2 ^ s dvd unat end_addr"
    unfolding start_addr_def end_addr_def m by (rule aligned_dvd)+
  define e' where "e' = foldl (clean_invalidate_line clean inval) e lines"
  have 1: "clean_invalidate e addr bytes clean inval =
       Some (e', if miss_handler e \<noteq> None
                 then [Miss_Handler_Clean_Invalidate addr bytes clean inval] else [])"
    unfolding e'_def lines_def start_addr_def end_addr_def
    using wf by (rule clean_invalidate_fold)
  have 2: "distinct lines"
    unfolding lines_def s(2) using s(1) al(2,1) by (rule line_addrs_distinct)
  have 3: "(a \<in> set lines) = (start_addr \<le> a \<and> a < end_addr \<and> a AND (linesz e - 1) = 0)" for a
  proof -
    have "(a \<in> set (line_addrs start_addr end_addr (2 ^ s))) =
        (start_addr \<le> a \<and> a < end_addr \<and> 2 ^ s dvd unat a)"
      using s(1) al(2,1) by (rule line_addrs_mem)
    then show ?thesis
      by (simp only: lines_def s(2) line_mask [OF s(1)] aligned_iff)
  qed
  have 4: "x AND NOT (linesz e - 1) \<in> set lines" if "addr \<le> x" "x - addr < bytes" for x
  proof -
    have "unat addr + unat bytes + 2 ^ s - 1 < 2 ^ 64"
      using nowrap unat_pow2 [OF s(1)] by (simp add: s(2))
    from line_covers [OF s(1) this that] show ?thesis
      by (simp only: lines_def start_addr_def end_addr_def s(2) line_mask [OF s(1)])
  qed
  have dt: "distinct (map (drop_bit (unat (idx_shift e))) lines)"
    unfolding lines_def s(2) s_def [symmetric] using s(1) al(2,1) by (rule line_addrs_distinct_tags)
  have 5: "slot_get e' p = cleared clean inval (slot_get e p) \<and>
        bit (slot_get e' p) 63 = (bit (slot_get e p) 63 \<and> \<not> inval) \<and>
        bit (slot_get e' p) 62 = (bit (slot_get e p) 62 \<and> \<not> clean)"
    if "a \<in> set lines" "check_tag e a = Some p" for a p
  proof -
    have "slot_get e' p = cleared clean inval (slot_get e p)"
      unfolding e'_def using wf dt that by (rule foldl_line_own)
    then show ?thesis
      by (simp only: cleared_bits)
  qed
  have 6: "writebacks e' =
       writebacks e + (if clean then of_nat (length (filter (hit_dirty e) lines)) else 0)"
    unfolding e'_def using wf dt by (rule foldl_line_writebacks)
  have 7: "check_tag e' a = check_tag e a" if "\<not> inval" for a
    using that foldl_line_clean_only [OF wf, of clean lines a] by (simp add: e'_def)
  have 8: "\<exists>e''. access e' a bytes' store = Inr (e'', []) \<and>
                  read_misses e'' = read_misses e' \<and> write_misses e'' = write_misses e'"
    if "\<not> inval" "check_tag e a \<noteq> None" for a bytes' store
  proof -
    from that 7 obtain p where "check_tag e' a = Some p"
      by auto
    from access_hit [OF this, of bytes' store] show ?thesis
      by blast
  qed
  show ?thesis
    using 1 2 3 4 5 6 7 8 unfolding e'_def [symmetric] by blast
qed

section \<open>The replacement generator\<close>

lemma neg_low_bit: "- (reg AND 1) = (if bit reg 0 then - 1 else (0::u32))"
  by (simp add: and_one_eq mod_2_eq_odd bit_0)

lemma lfsr_first_outputs:
  "fst (lfsr_next lfsr_t) = 0xD0000001 \<and>
   fst (lfsr_next (snd (lfsr_next lfsr_t))) = 0xB8000001 \<and>
   fst (lfsr_next (snd (lfsr_next (snd (lfsr_next lfsr_t))))) = 0x8C000001"
  by (simp add: lfsr_t_def lfsr_next_def)

text \<open>
  C4. The generator's register is seeded to 1. Each call to \<open>next()\<close> shifts the
  register right by one bit, XORs the result with \<open>0xD0000001\<close> exactly when the bit
  shifted out was 1, stores the new value and returns it: the code's branch-free
  expression computes, for every register value, what the specification's rule says,
  and the value returned is the value stored. The sequence is a function of the seed.
\<close>

theorem lfsr_next_meets_spec:
  "lfsr_t = 1 \<and> lfsr_next reg = lfsr_next_spec reg \<and> snd (lfsr_next reg) = fst (lfsr_next reg)"
  by (simp add: lfsr_t_def lfsr_next_def lfsr_next_spec_def neg_low_bit Let_def)

section \<open>The factory\<close>

text \<open>
  C7. The factory selects the fully-associative engine exactly when the parsed
  configuration has \<open>ways > 4\<close> and \<open>sets = 1\<close>, and the set-associative engine in
  every other case. Take a configuration string \<open>S:W:L\<close> whose fields \<open>atoi\<close> reads as
  \<open>s\<close>, \<open>w\<close> and \<open>l\<close>, and let \<open>sets'\<close>, \<open>ways'\<close> and \<open>linesz'\<close> be these numbers as
  \<open>size_t\<close>. Then \<open>construct\<close> does what \<open>fa_cache_sim_t(ways', linesz', name)\<close> does
  if \<open>ways' > 4\<close> and \<open>sets' = 1\<close>, and what \<open>cache_sim_t(sets', ways', linesz', name)\<close>
  does otherwise, also when \<open>sets' = 1\<close> and \<open>ways' \<le> 4\<close>. An engine it returns has the
  dynamic type \<open>fa_cache_sim_t\<close> in the first case and \<open>cache_sim_t\<close> in the second, and
  has the parsed \<open>sets'\<close>, \<open>ways'\<close> and \<open>linesz'\<close>. It does return an engine whenever
  \<open>sets'\<close> and \<open>linesz'\<close> pass the checks of \<open>init\<close> and the array can be allocated.
  Every string from which \<open>construct\<close> returns an engine has three such fields.
\<close>

theorem factory_selects_variant:
  fixes S W L :: string and s w l :: int
  assumes "CHR '':'' \<notin> set S" and "CHR '':'' \<notin> set W"
    and "atoi S = Some s" and "atoi W = Some w" and "atoi L = Some l"
  defines "config \<equiv> S @ CHR '':'' # W @ CHR '':'' # L"
    and "sets' \<equiv> (word_of_int s :: u64)"
    and "ways' \<equiv> (word_of_int w :: u64)"
    and "linesz' \<equiv> (word_of_int l :: u64)"
  shows "construct config nm =
           (if 4 < ways' \<and> sets' = 1 then fa_cache_sim_t ways' linesz' nm
            else cache_sim_t sets' ways' linesz' nm) \<and>
         (\<forall>e. construct config nm = Inr e \<longrightarrow>
            (variant e = Fully_Associative) = (4 < ways' \<and> sets' = 1) \<and>
            (variant e = Set_Associative) = (\<not> (4 < ways' \<and> sets' = 1)) \<and>
            sets e = sets' \<and> ways e = ways' \<and> linesz e = linesz') \<and>
         (is_pow2 sets' \<and> is_pow2 linesz' \<and> 8 \<le> linesz' \<and> sets' * ways' < 2 ^ 60 \<longrightarrow>
            (\<exists>e. construct config nm = Inr e)) \<and>
         (\<forall>c e. construct c nm = Inr e \<longrightarrow>
            (\<exists>S' W' L' s' w' l'. c = S' @ CHR '':'' # W' @ CHR '':'' # L' \<and>
               CHR '':'' \<notin> set S' \<and> CHR '':'' \<notin> set W' \<and>
               atoi S' = Some s' \<and> atoi W' = Some w' \<and> atoi L' = Some l'))"
proof -
  let ?fa = "4 < ways' \<and> sets' = 1"
  have c: "construct config nm =
           (if ?fa then fa_cache_sim_t ways' linesz' nm else cache_sim_t sets' ways' linesz' nm)"
    unfolding config_def construct_fields [OF assms(1,2)]
    by (simp add: assms(3,4,5) sets'_def ways'_def linesz'_def)
  have i: "construct config nm =
           init (if ?fa then Fully_Associative else Set_Associative) sets' ways' linesz' nm"
    unfolding c by (simp add: fa_cache_sim_t_def cache_sim_t_def)
  have v: "(variant e = Fully_Associative) = ?fa \<and> (variant e = Set_Associative) = (\<not> ?fa) \<and>
            sets e = sets' \<and> ways e = ways' \<and> linesz e = linesz'"
    if "construct config nm = Inr e" for e
  proof -
    from that i have "init (if ?fa then Fully_Associative else Set_Associative)
        sets' ways' linesz' nm = Inr e"
      by simp
    from init_Inr [OF this] show ?thesis
      by auto
  qed
  have a: "\<exists>e. construct config nm = Inr e"
    if h: "is_pow2 sets'" "is_pow2 linesz'" "8 \<le> linesz'" "sets' * ways' < 2 ^ 60"
  proof -
    have t: "sets' \<noteq> 0 \<and> sets' AND (sets' - 1) = 0" "linesz' \<noteq> 0 \<and> linesz' AND (linesz' - 1) = 0"
      using h(1,2) pow2_test_iff by blast+
    have "\<not> linesz' < 8"
      using h(3) by (simp add: not_less)
    with t h(4) show ?thesis
      unfolding i by (simp add: init_def new_array_def)
  qed
  have f: "\<exists>S' W' L' s' w' l'. c' = S' @ CHR '':'' # W' @ CHR '':'' # L' \<and>
               CHR '':'' \<notin> set S' \<and> CHR '':'' \<notin> set W' \<and>
               atoi S' = Some s' \<and> atoi W' = Some w' \<and> atoi L' = Some l'"
    if "construct c' nm = Inr e" for c' e
    using that by (rule construct_Inr_fields)
  have v': "\<forall>e. construct config nm = Inr e \<longrightarrow>
            (variant e = Fully_Associative) = ?fa \<and> (variant e = Set_Associative) = (\<not> ?fa) \<and>
            sets e = sets' \<and> ways e = ways' \<and> linesz e = linesz'"
    using v by blast
  have a': "is_pow2 sets' \<and> is_pow2 linesz' \<and> 8 \<le> linesz' \<and> sets' * ways' < 2 ^ 60 \<longrightarrow>
            (\<exists>e. construct config nm = Inr e)"
    using a by blast
  have f': "\<forall>c e. construct c nm = Inr e \<longrightarrow>
            (\<exists>S' W' L' s' w' l'. c = S' @ CHR '':'' # W' @ CHR '':'' # L' \<and>
               CHR '':'' \<notin> set S' \<and> CHR '':'' \<notin> set W' \<and>
               atoi S' = Some s' \<and> atoi W' = Some w' \<and> atoi L' = Some l')"
    using f by blast
  show ?thesis
    by (rule conjI [OF c conjI [OF v' conjI [OF a' f']]])
qed

text \<open>
  \<open>"1:8:64"\<close> gives the fully-associative engine; \<open>"4:2:64"\<close>, \<open>"1:4:64"\<close> (one set, four
  ways) and \<open>"4:8:64"\<close> (eight ways, four sets) give the set-associative one.
\<close>

theorem factory_selects_variant_witness:
  "CHR '':'' \<notin> set ''1'' \<and> CHR '':'' \<notin> set ''8'' \<and> CHR '':'' \<notin> set ''4'' \<and>
   CHR '':'' \<notin> set ''2'' \<and>
   atoi ''1'' = Some 1 \<and> atoi ''8'' = Some 8 \<and> atoi ''4'' = Some 4 \<and> atoi ''2'' = Some 2 \<and>
   atoi ''64'' = Some 64 \<and>
   construct ''1:8:64'' ''D$'' = fa_cache_sim_t 8 64 ''D$'' \<and>
   construct ''1:8:64'' ''D$'' = Inr engine_1_8_64 \<and>
   variant engine_1_8_64 = Fully_Associative \<and>
   construct ''4:2:64'' ''D$'' = cache_sim_t 4 2 64 ''D$'' \<and>
   construct ''4:2:64'' ''D$'' = Inr engine_4_2_64 \<and>
   variant engine_4_2_64 = Set_Associative \<and>
   construct ''1:4:64'' ''D$'' = cache_sim_t 1 4 64 ''D$'' \<and>
   construct ''1:4:64'' ''D$'' =
     Inr (engine_4_2_64\<lparr> sets := 1, ways := 4, tags := [0, 0, 0, 0] \<rparr>) \<and>
   variant (engine_4_2_64\<lparr> sets := 1, ways := 4, tags := [0, 0, 0, 0] \<rparr>) = Set_Associative \<and>
   construct ''4:8:64'' ''D$'' = cache_sim_t 4 8 64 ''D$'' \<and>
   (\<exists>e. construct ''4:8:64'' ''D$'' = Inr e \<and> variant e = Set_Associative \<and> sets e = 4 \<and>
        ways e = 8)"
proof -
  have f: "CHR '':'' \<notin> set ''1''" "CHR '':'' \<notin> set ''8''" "CHR '':'' \<notin> set ''4''"
    "CHR '':'' \<notin> set ''2''"
    by simp_all
  have a: "atoi ''1'' = Some 1" "atoi ''8'' = Some 8" "atoi ''4'' = Some 4" "atoi ''2'' = Some 2"
    "atoi ''64'' = Some 64"
    by (simp_all add: atoi_def isspace_def isdigit_def Let_def)
  have p: "is_pow2 4" "is_pow2 64"
    using pow2_test_iff [of 4] pow2_test_iff [of 64] by simp_all
  note t1 = factory_selects_variant [OF f(1,2) a(1,2,5), where nm = "''D$''", simplified append.simps]
  note t2 = factory_selects_variant [OF f(3,4) a(3,4,5), where nm = "''D$''", simplified append.simps]
  note t3 = factory_selects_variant [OF f(1,3) a(1,3,5), where nm = "''D$''", simplified append.simps]
  note t4 = factory_selects_variant [OF f(3,2) a(3,2,5), where nm = "''D$''", simplified append.simps]
  have 1: "construct ''1:8:64'' ''D$'' = fa_cache_sim_t 8 64 ''D$''"
    using t1 [THEN conjunct1] by simp
  have v1: "variant engine_1_8_64 = Fully_Associative"
    using t1 [THEN conjunct2, THEN conjunct1, rule_format, OF construct_1_8_64] by simp
  have 2: "construct ''4:2:64'' ''D$'' = cache_sim_t 4 2 64 ''D$''"
    using t2 [THEN conjunct1] by simp
  have v2: "variant engine_4_2_64 = Set_Associative"
    using t2 [THEN conjunct2, THEN conjunct1, rule_format, OF construct_4_2_64] by simp
  have 3: "construct ''1:4:64'' ''D$'' = cache_sim_t 1 4 64 ''D$''"
    using t3 [THEN conjunct1] by simp
  have v3: "variant (engine_4_2_64\<lparr> sets := 1, ways := 4, tags := [0, 0, 0, 0] \<rparr>) = Set_Associative"
    using t3 [THEN conjunct2, THEN conjunct1, rule_format, OF construct_1_4_64] by simp
  have 4: "construct ''4:8:64'' ''D$'' = cache_sim_t 4 8 64 ''D$''"
    using t4 [THEN conjunct1] by simp
  have "\<exists>e. construct ''4:8:64'' ''D$'' = Inr e"
    using t4 [THEN conjunct2, THEN conjunct2, THEN conjunct1] p by simp
  then obtain e where e: "construct ''4:8:64'' ''D$'' = Inr e"
    by blast
  from t4 [THEN conjunct2, THEN conjunct1, rule_format, OF this]
  have "variant e = Set_Associative \<and> sets e = 4 \<and> ways e = 8"
    by simp
  with e have 5: "\<exists>e. construct ''4:8:64'' ''D$'' = Inr e \<and> variant e = Set_Associative \<and>
      sets e = 4 \<and> ways e = 8"
    by blast
  show ?thesis
    by (intro conjI f a 1 v1 2 v2 3 v3 4 5 construct_1_8_64 construct_4_2_64 construct_1_4_64)
qed

section \<open>Tags and flag bits\<close>

text \<open>
  C10. An engine that \<open>construct\<close> returned has \<open>linesz\<close> at least 8 and so
  \<open>idx_shift\<close> at least 3; the tag \<open>addr >> idx_shift\<close> of any 64-bit address then
  has bits 62 and 63 clear, so it never collides with VALID or DIRTY; and two addresses
  give equal stored tag words \<open>(addr >> idx_shift) | VALID\<close> if and only if they lie in
  the same line, that is, agree once the low \<open>linesz - 1\<close> bits are masked off.
\<close>

theorem tags_never_collide_with_flags:
  assumes "construct config n = Inr e"
  shows "8 \<le> linesz e \<and> 3 \<le> unat (idx_shift e) \<and>
         \<not> bit (drop_bit (unat (idx_shift e)) a) 62 \<and>
         \<not> bit (drop_bit (unat (idx_shift e)) a) 63 \<and>
         drop_bit (unat (idx_shift e)) a AND (VALID OR DIRTY) = 0 \<and>
         ((drop_bit (unat (idx_shift e)) a OR VALID = drop_bit (unat (idx_shift e)) b OR VALID)
            = (a AND NOT (linesz e - 1) = b AND NOT (linesz e - 1)))"
proof -
  from assms obtain dyn s w l where i: "init dyn s w l n = Inr e"
    using construct_Inr by blast
  let ?s = "unat (idx_shift e)"
  from init_geometry [OF i] have g: "3 \<le> ?s" "?s < 64" "linesz e = 2 ^ ?s"
    by auto
  from init_Inr [OF i] have "8 \<le> linesz e"
    by auto
  moreover have bits: "\<not> bit (drop_bit ?s a) 62 \<and> \<not> bit (drop_bit ?s a) 63"
    "\<not> bit (drop_bit ?s b) 62 \<and> \<not> bit (drop_bit ?s b) 63"
    using g(1) by (simp_all add: tag_bits_clear)
  moreover have "drop_bit ?s a AND (VALID OR DIRTY) = 0"
    using g(1) by (simp add: tag_flags_clear)
  moreover have "(drop_bit ?s a OR VALID = drop_bit ?s b OR VALID)
            = (a AND NOT (linesz e - 1) = b AND NOT (linesz e - 1))"
    using bits g(2) by (simp add: or_VALID_inject same_line_iff g(3) line_mask)
  ultimately show ?thesis
    using g(1) by simp
qed

theorem tags_never_collide_with_flags_witness:
  "construct ''4:2:64'' ''D$'' = Inr engine_4_2_64 \<and>
   8 \<le> linesz engine_4_2_64 \<and> 3 \<le> unat (idx_shift engine_4_2_64) \<and>
   drop_bit (unat (idx_shift engine_4_2_64)) 0xFFFFFFFFFFFFFFFF AND (VALID OR DIRTY) = 0 \<and>
   drop_bit (unat (idx_shift engine_4_2_64)) 0xFFFFFFFFFFFFFFFF OR VALID
     = drop_bit (unat (idx_shift engine_4_2_64)) 0xFFFFFFFFFFFFFFC0 OR VALID \<and>
   (0xFFFFFFFFFFFFFFFF :: u64) AND NOT (linesz engine_4_2_64 - 1)
     = 0xFFFFFFFFFFFFFFC0 AND NOT (linesz engine_4_2_64 - 1)"
  using tags_never_collide_with_flags [OF construct_4_2_64, of "0xFFFFFFFFFFFFFFFF" "0xFFFFFFFFFFFFFFC0"]
    construct_4_2_64
  by (simp add: engine_4_2_64_def)

section \<open>Copying an engine\<close>

text \<open>
  What the copy constructor writes and what it leaves as the storage had it.
\<close>

lemma cache_sim_t_copy_fields:
  assumes "cache_sim_t_copy raw rhs = Inr c"
  shows "read_accesses c = read_accesses raw \<and> read_misses c = read_misses raw \<and>
         bytes_read c = bytes_read raw \<and> write_accesses c = write_accesses raw \<and>
         write_misses c = write_misses raw \<and> bytes_written c = bytes_written raw \<and>
         writebacks c = writebacks raw \<and> miss_handler c = miss_handler raw \<and>
         tags c = take (unat (sets rhs * ways rhs)) (tags rhs) \<and> log c = False \<and>
         lfsr c = lfsr_t"
  using assms by (auto simp: cache_sim_t_copy_def split: if_splits)

text \<open>
  C2. The claim: a copy of an engine has the tag-store contents and all seven statistics
  counters of its source, and logging disabled. The copy constructor copies the tag
  array and clears \<open>log\<close>, but it never writes a counter. Here the source is the engine
  of \<open>"4:2:64"\<close> after one read of address 0, whose \<open>read_accesses\<close>, \<open>read_misses\<close>
  and \<open>bytes_read\<close> are 1; the copy is built in storage whose \<open>read_accesses\<close> held 7
  and whose other counters held 0. The copy has the source's tags, but its
  \<open>read_accesses\<close> is 7 and its \<open>read_misses\<close> and \<open>bytes_read\<close> are 0.
\<close>

theorem copy_does_not_copy_counters:
  "access engine_4_2_64 0 1 False =
     Inr (engine_4_2_64\<lparr> lfsr := 0xD0000001, read_accesses := 1, read_misses := 1, bytes_read := 1,
            tags := [0, 0x8000000000000000, 0, 0, 0, 0, 0, 0] \<rparr>, []) \<and>
   cache_sim_t_copy (engine_4_2_64\<lparr> read_accesses := 7 \<rparr>)
       (engine_4_2_64\<lparr> lfsr := 0xD0000001, read_accesses := 1, read_misses := 1, bytes_read := 1,
            tags := [0, 0x8000000000000000, 0, 0, 0, 0, 0, 0] \<rparr>) =
     Inr (engine_4_2_64\<lparr> read_accesses := 7,
            tags := [0, 0x8000000000000000, 0, 0, 0, 0, 0, 0] \<rparr>)"
  by (simp add: eval_defs engine_4_2_64_def check_tag_ways.simps cache_sim_t_copy_def lfsr_t_def)

section \<open>Lookup in the fully-associative engine\<close>

text \<open>
  C3. The claim: in every engine variant \<open>check_tag\<close> reports a match only for an entry
  whose VALID flag is set, so an access to a line whose entry has VALID cleared is a
  miss. In the fully-associative engine \<open>check_tag\<close> looks the key up in the map and
  never tests VALID. Here the engine of \<open>"1:8:64"\<close> reads address 0 (a miss that
  installs the line), then \<open>clean_invalidate(0, 1, false, true)\<close> clears VALID in the
  entry and leaves the node in the map; \<open>check_tag(0)\<close> still returns the entry, whose
  VALID bit is clear, and a second read of address 0 is a hit: \<open>read_misses\<close> stays 1.
\<close>

theorem fa_check_tag_returns_invalid_entry:
  "access engine_1_8_64 0 1 False =
     Inr (engine_1_8_64\<lparr> read_accesses := 1, bytes_read := 1, read_misses := 1,
            fa_tags := [(0, 0x8000000000000000)] \<rparr>, []) \<and>
   clean_invalidate (engine_1_8_64\<lparr> read_accesses := 1, bytes_read := 1, read_misses := 1,
            fa_tags := [(0, 0x8000000000000000)] \<rparr>) 0 1 False True =
     Some (engine_1_8_64\<lparr> read_accesses := 1, bytes_read := 1, read_misses := 1,
            fa_tags := [(0, 0)] \<rparr>, []) \<and>
   check_tag (engine_1_8_64\<lparr> read_accesses := 1, bytes_read := 1, read_misses := 1,
            fa_tags := [(0, 0)] \<rparr>) 0 = Some (Map_Entry 0) \<and>
   slot_get (engine_1_8_64\<lparr> read_accesses := 1, bytes_read := 1, read_misses := 1,
            fa_tags := [(0, 0)] \<rparr>) (Map_Entry 0) AND VALID = 0 \<and>
   access (engine_1_8_64\<lparr> read_accesses := 1, bytes_read := 1, read_misses := 1,
            fa_tags := [(0, 0)] \<rparr>) 0 1 False =
     Inr (engine_1_8_64\<lparr> read_accesses := 2, bytes_read := 2, read_misses := 1,
            fa_tags := [(0, 0)] \<rparr>, [])"
  by (simp add: eval_defs engine_1_8_64_def clean_invalidate_loop.simps)

section \<open>The entry installed by an eviction is found\<close>

text \<open>
  C9. In both engine variants, in every state an engine reaches from \<open>construct\<close> (with
  \<open>ways\<close> at least 1) by any sequence of calls, and for every 64-bit address:
  \<open>victimize(addr)\<close> returns, and right after it has installed the entry for \<open>addr\<close>,
  \<open>check_tag(addr)\<close> returns a match. So the store-miss step
  \<open>*check_tag(addr) |= DIRTY\<close> never dereferences a null pointer: \<open>access\<close> returns
  an engine, never a failure.
\<close>

theorem victimize_then_check_tag_matches:
  assumes "construct config n = Inr e0" and "ways e0 \<noteq> 0" and "run e0 ops = Some e"
  shows "(\<forall>victim e'. victimize e addr = Inr (victim, e') \<longrightarrow> check_tag e' addr \<noteq> None) \<and>
         (\<exists>victim e'. victimize e addr = Inr (victim, e')) \<and>
         (\<exists>e' evs. access e addr bytes store = Inr (e', evs))"
proof -
  have "well_formed e0"
    using assms(1,2) by (rule construct_well_formed)
  with run_well_formed [of e0 ops] assms(3) have wf: "well_formed e"
    by auto
  show ?thesis
    using victimize_check_tag [OF wf] victimize_total [OF wf, of addr]
      access_total [OF wf, of addr bytes store]
    by blast
qed

theorem victimize_then_check_tag_matches_witness:
  "construct ''4:2:64'' ''D$'' = Inr engine_4_2_64 \<and> ways engine_4_2_64 \<noteq> 0 \<and>
   run engine_4_2_64 [Access 0 1 True] =
     Some (engine_4_2_64\<lparr> lfsr := 0xD0000001, write_accesses := 1, bytes_written := 1,
             write_misses := 1, tags := [0, 0xC000000000000000, 0, 0, 0, 0, 0, 0] \<rparr>) \<and>
   (\<exists>victim e'. victimize (engine_4_2_64\<lparr> lfsr := 0xD0000001, write_accesses := 1,
             bytes_written := 1, write_misses := 1,
             tags := [0, 0xC000000000000000, 0, 0, 0, 0, 0, 0] \<rparr>) 0x100 = Inr (victim, e')) \<and>
   (\<exists>e' evs. access (engine_4_2_64\<lparr> lfsr := 0xD0000001, write_accesses := 1,
             bytes_written := 1, write_misses := 1,
             tags := [0, 0xC000000000000000, 0, 0, 0, 0, 0, 0] \<rparr>) 0x100 8 True = Inr (e', evs))"
proof -
  have r: "run engine_4_2_64 [Access 0 1 True] =
     Some (engine_4_2_64\<lparr> lfsr := 0xD0000001, write_accesses := 1, bytes_written := 1,
             write_misses := 1, tags := [0, 0xC000000000000000, 0, 0, 0, 0, 0, 0] \<rparr>)"
    by (simp add: eval_defs engine_4_2_64_def check_tag_ways.simps)
  have w: "ways engine_4_2_64 \<noteq> 0"
    by (simp add: engine_4_2_64_def)
  show ?thesis
    using victimize_then_check_tag_matches [OF construct_4_2_64 w r, of "0x100" 8 True]
      construct_4_2_64 w r
    by simp
qed

section \<open>Occupancy and eviction in the fully-associative engine\<close>

text \<open>
  C8. In a fully-associative engine that \<open>construct\<close> returned, after any sequence of
  calls the map holds at most \<open>ways\<close> entries, in ascending key order. When it holds
  exactly \<open>ways\<close> entries, \<open>victimize(addr)\<close> removes exactly one entry, the one at
  offset \<open>lfsr.next() mod ways\<close> in that order, and returns its value; the other
  entries stay. Otherwise it removes nothing, every entry with another key stays, and it
  returns 0, a value with VALID clear. In both cases the entry for \<open>addr\<close> is then
  assigned.
\<close>

theorem fa_occupancy_and_eviction:
  assumes "construct config nm = Inr e0" and "variant e0 = Fully_Associative"
    and "run e0 ops = Some e"
  defines "key \<equiv> \<lambda>addr. drop_bit (unat (idx_shift e)) addr"
    and "n \<equiv> unat (ucast (fst (lfsr_next (lfsr e))) mod ways e)"
  shows "length (fa_tags e) \<le> unat (ways e) \<and>
         sorted_wrt (<) (map fst (fa_tags e)) \<and>
         (length (fa_tags e) = unat (ways e) \<longrightarrow>
            n < length (fa_tags e) \<and>
            fa_cache_sim_t_victimize e addr =
              Inr (snd (fa_tags e ! n),
                   e\<lparr> lfsr := snd (lfsr_next (lfsr e)),
                      fa_tags := map_assign (key addr) (key addr OR VALID)
                                   (map_erase_at n (fa_tags e)) \<rparr>) \<and>
            length (map_erase_at n (fa_tags e)) = length (fa_tags e) - 1 \<and>
            set (map_erase_at n (fa_tags e)) = set (fa_tags e) - {fa_tags e ! n}) \<and>
         (length (fa_tags e) \<noteq> unat (ways e) \<longrightarrow>
            fa_cache_sim_t_victimize e addr =
              Inr (0, e\<lparr> fa_tags := map_assign (key addr) (key addr OR VALID) (fa_tags e) \<rparr>) \<and>
            (0 :: u64) AND VALID = 0 \<and>
            {x \<in> set (fa_tags e). fst x \<noteq> key addr}
              \<subseteq> set (map_assign (key addr) (key addr OR VALID) (fa_tags e)))"
proof -
  have "4 < ways e0"
    using construct_variant [OF assms(1)] assms(2) by simp
  then have "ways e0 \<noteq> 0"
    by auto
  with assms(1) have "well_formed e0"
    by (rule construct_well_formed)
  with run_well_formed [of e0 ops] assms(3) have wf: "well_formed e"
    by auto
  then have le: "length (fa_tags e) \<le> unat (ways e)" and srt: "sorted_wrt (<) (map fst (fa_tags e))"
    by (simp_all add: well_formed_def)
  note v = fa_cache_sim_t_victimize_Inr [OF wf, where addr = addr]
  have full: "n < length (fa_tags e) \<and>
      length (map_erase_at n (fa_tags e)) = length (fa_tags e) - 1 \<and>
      set (map_erase_at n (fa_tags e)) = set (fa_tags e) - {fa_tags e ! n}"
    if "length (fa_tags e) = unat (ways e)"
  proof -
    have "n < length (fa_tags e)"
      unfolding n_def using victim_offset_less [OF wf] that by simp
    then show ?thesis
      using length_map_erase_at set_map_erase_at [OF srt] by simp
  qed
  have sub: "{x \<in> set (fa_tags e). fst x \<noteq> key addr}
              \<subseteq> set (map_assign (key addr) (key addr OR VALID) (fa_tags e))"
    by (simp add: set_map_assign [OF srt] subset_insertI)
  show ?thesis
    using le srt v full sub by (simp add: key_def n_def)
qed

theorem fa_occupancy_and_eviction_witness:
  "construct ''1:8:64'' ''D$'' = Inr engine_1_8_64 \<and> variant engine_1_8_64 = Fully_Associative \<and>
   run engine_1_8_64 [Access 0 1 False, Access 64 1 False, Access 128 1 False, Access 192 1 False,
       Access 256 1 False, Access 320 1 False, Access 384 1 False, Access 448 1 False] =
     Some engine_1_8_64_full \<and>
   length (fa_tags engine_1_8_64_full) = unat (ways engine_1_8_64_full) \<and>
   fa_cache_sim_t_victimize engine_1_8_64_full 512 =
     Inr (0x8000000000000001,
          engine_1_8_64_full\<lparr> lfsr := 0xD0000001,
            fa_tags := [(0, 0x8000000000000000), (2, 0x8000000000000002),
                   (3, 0x8000000000000003), (4, 0x8000000000000004), (5, 0x8000000000000005),
                   (6, 0x8000000000000006), (7, 0x8000000000000007), (8, 0x8000000000000008)] \<rparr>) \<and>
   run engine_1_8_64 [] = Some engine_1_8_64 \<and>
   length (fa_tags engine_1_8_64) \<noteq> unat (ways engine_1_8_64) \<and>
   fa_cache_sim_t_victimize engine_1_8_64 512 =
     Inr (0, engine_1_8_64\<lparr> fa_tags := [(8, 0x8000000000000008)] \<rparr>)"
proof -
  have v: "variant engine_1_8_64 = Fully_Associative"
    by (simp add: engine_1_8_64_def)
  have r: "run engine_1_8_64 [] = Some engine_1_8_64"
    by simp
  have full: "length (fa_tags engine_1_8_64_full) = unat (ways engine_1_8_64_full)"
    by (simp add: engine_1_8_64_full_def engine_1_8_64_def)
  have empty: "length (fa_tags engine_1_8_64) \<noteq> unat (ways engine_1_8_64)"
    by (simp add: engine_1_8_64_def)
  have a: "fa_cache_sim_t_victimize engine_1_8_64_full 512 =
     Inr (0x8000000000000001,
          engine_1_8_64_full\<lparr> lfsr := 0xD0000001,
            fa_tags := [(0, 0x8000000000000000), (2, 0x8000000000000002),
                   (3, 0x8000000000000003), (4, 0x8000000000000004), (5, 0x8000000000000005),
                   (6, 0x8000000000000006), (7, 0x8000000000000007), (8, 0x8000000000000008)] \<rparr>)"
    using fa_occupancy_and_eviction [OF construct_1_8_64 v run_fill_1_8_64, of 512] full
    by (simp add: eval_defs engine_1_8_64_def engine_1_8_64_full_def)
  have b: "fa_cache_sim_t_victimize engine_1_8_64 512 =
     Inr (0, engine_1_8_64\<lparr> fa_tags := [(8, 0x8000000000000008)] \<rparr>)"
    using fa_occupancy_and_eviction [OF construct_1_8_64 v r, of 512] empty
    by (simp add: eval_defs engine_1_8_64_def)
  show ?thesis
    using construct_1_8_64 v run_fill_1_8_64 full a r empty b by simp
qed

section \<open>A missing access\<close>

text \<open>
  C5. In every state an engine reaches from \<open>construct\<close> (with \<open>ways\<close> at least 1), an
  access to an address that \<open>check_tag\<close> does not find increments the access, byte and
  miss counters of its direction (state \<open>e3\<close>) and victimizes. The evicted entry
  \<open>victim\<close> is what the engine held before the access: in the set-associative engine the
  content of the entry at way \<open>lfsr.next() % ways\<close> of the set of \<open>addr\<close>, which is the
  entry \<open>p\<close> that receives the new line; in the fully-associative engine the value of
  the node at offset \<open>lfsr.next() % ways\<close> of the map when the map is full, and 0 when
  it is not. If \<open>victim\<close> was both VALID and DIRTY, \<open>writebacks\<close> grows by exactly one
  and, when a next-level engine is linked, exactly one \<open>access(dirty_addr, linesz, true)\<close>
  is issued to it, where \<open>dirty_addr\<close> is the victim's tag bits (VALID and DIRTY masked)
  shifted left by \<open>idx_shift\<close>: a line-aligned address, and the line address of every
  address whose tag the victim held. Otherwise \<open>writebacks\<close> is unchanged and no write is
  issued. Then, when a next-level engine is linked, exactly one
  \<open>access(addr & ~(linesz-1), linesz, false)\<close> is issued, whether or not a writeback
  occurred. Nothing else is issued but the log line when logging is on. Finally the
  entry \<open>p\<close> just installed for \<open>addr\<close>, which is the one \<open>check_tag(addr)\<close> finds, holds
  the tag with VALID, and with DIRTY exactly when the access is a store.
\<close>

theorem access_on_miss:
  fixes e :: cache_sim_t and addr bytes :: u64 and store :: bool
  assumes "construct config nm = Inr e0" and "ways e0 \<noteq> 0" and "run e0 ops = Some e"
    and miss: "check_tag e addr = None"
  defines "e3 \<equiv> (if store
                  then e\<lparr> write_accesses := write_accesses e + 1,
                         bytes_written := bytes_written e + bytes,
                         write_misses := write_misses e + 1 \<rparr>
                  else e\<lparr> read_accesses := read_accesses e + 1,
                         bytes_read := bytes_read e + bytes,
                         read_misses := read_misses e + 1 \<rparr>)"
    and "tag \<equiv> drop_bit (unat (idx_shift e)) addr"
    and "way \<equiv> ucast (fst (lfsr_next (lfsr e))) mod ways e"
    and "full \<equiv> (length (fa_tags e) = unat (ways e))"
  defines "i \<equiv> unat ((tag AND (sets e - 1)) * ways e + way)"
  defines "victim \<equiv> (case variant e of
                        Set_Associative \<Rightarrow> tags e ! i
                      | Fully_Associative \<Rightarrow> if full then snd (fa_tags e ! unat way) else 0)"
    and "p \<equiv> (case variant e of
                 Set_Associative \<Rightarrow> Array_Entry i
               | Fully_Associative \<Rightarrow> Map_Entry tag)"
    and "e4 \<equiv> (case variant e of
                  Set_Associative \<Rightarrow>
                    e3\<lparr> lfsr := snd (lfsr_next (lfsr e)), tags := (tags e)[i := tag OR VALID] \<rparr>
                | Fully_Associative \<Rightarrow>
                    if full
                    then e3\<lparr> lfsr := snd (lfsr_next (lfsr e)),
                            fa_tags := map_assign tag (tag OR VALID)
                                         (map_erase_at (unat way) (fa_tags e)) \<rparr>
                    else e3\<lparr> fa_tags := map_assign tag (tag OR VALID) (fa_tags e) \<rparr>)"
  defines "wb \<equiv> (victim AND (VALID OR DIRTY) = (VALID OR DIRTY))"
    and "dirty_addr \<equiv> push_bit (unat (idx_shift e)) (victim AND NOT (VALID OR DIRTY))"
  defines "e5 \<equiv> e4\<lparr> writebacks := writebacks e + (if wb then 1 else 0) \<rparr>"
  defines "e' \<equiv> (if store then slot_set p (tag OR VALID OR DIRTY) e5 else e5)"
  shows "victimize e3 addr = Inr (victim, e4) \<and>
         (variant e = Set_Associative \<longrightarrow> i < length (tags e) \<and> victim = slot_get e p) \<and>
         (variant e = Fully_Associative \<and> full \<longrightarrow> unat way < length (fa_tags e)) \<and>
         check_tag e4 addr = Some p \<and> slot_get e4 p = tag OR VALID \<and>
         access e addr bytes store =
           Inr (e',
             (if log e then [Log_Miss (name e) store addr] else []) @
             (if wb \<and> miss_handler e \<noteq> None
              then [Miss_Handler_Access dirty_addr (linesz e) True] else []) @
             (if miss_handler e \<noteq> None
              then [Miss_Handler_Access (addr AND NOT (linesz e - 1)) (linesz e) False] else [])) \<and>
         check_tag e' addr = Some p \<and>
         slot_get e' p = (if store then tag OR VALID OR DIRTY else tag OR VALID) \<and>
         writebacks e' = writebacks e + (if wb then 1 else 0) \<and>
         dirty_addr AND (linesz e - 1) = 0 \<and>
         (\<forall>a. victim AND NOT DIRTY = drop_bit (unat (idx_shift e)) a OR VALID \<longrightarrow>
              dirty_addr = a AND NOT (linesz e - 1))"
proof -
  have "well_formed e0"
    using assms(1,2) by (rule construct_well_formed)
  with run_well_formed [of e0 ops] assms(3) have wf: "well_formed e"
    by auto
  define e2 where "e2 = (if store
      then e\<lparr> write_accesses := write_accesses e + 1, bytes_written := bytes_written e + bytes \<rparr>
      else e\<lparr> read_accesses := read_accesses e + 1, bytes_read := bytes_read e + bytes \<rparr>)"
  have wf2: "well_formed e2" and miss2: "check_tag e2 addr = None"
    using wf miss by (simp_all add: e2_def)
  have a: "access e addr bytes store = access_miss e2 addr store"
    using miss by (cases store) (simp_all add: access_def Let_def e2_def)
  have e3: "(if store then e2\<lparr> write_misses := write_misses e2 + 1 \<rparr>
             else e2\<lparr> read_misses := read_misses e2 + 1 \<rparr>) = e3"
    by (simp add: e2_def e3_def)
  have f: "idx_shift e2 = idx_shift e" "writebacks e2 = writebacks e" "log e2 = log e"
    "name e2 = name e" "miss_handler e2 = miss_handler e" "linesz e2 = linesz e"
    by (simp_all add: e2_def)
  have R: "\<exists>victim' e4' p'.
     victimize e3 addr = Inr (victim', e4') \<and>
     check_tag e4' addr = Some p' \<and> slot_get e4' p' = tag OR VALID \<and>
     (let wb = (victim' AND (VALID OR DIRTY) = (VALID OR DIRTY));
          dirty_addr = push_bit (unat (idx_shift e)) (victim' AND NOT (VALID OR DIRTY));
          e5 = e4'\<lparr> writebacks := writebacks e + (if wb then 1 else 0) \<rparr>;
          e' = (if store then slot_set p' (tag OR VALID OR DIRTY) e5 else e5)
      in access e addr bytes store =
           Inr (e',
             (if log e then [Log_Miss (name e) store addr] else []) @
             (if wb \<and> miss_handler e \<noteq> None
              then [Miss_Handler_Access dirty_addr (linesz e) True] else []) @
             (if miss_handler e \<noteq> None
              then [Miss_Handler_Access (addr AND NOT (linesz e - 1)) (linesz e) False] else [])) \<and>
         check_tag e' addr = Some p' \<and>
         slot_get e' p' = (if store then tag OR VALID OR DIRTY else tag OR VALID) \<and>
         dirty_addr AND (linesz e - 1) = 0 \<and>
         (\<forall>a. victim' AND NOT DIRTY = drop_bit (unat (idx_shift e)) a OR VALID \<longrightarrow>
              dirty_addr = a AND NOT (linesz e - 1)))"
    using access_miss_result [OF wf2 miss2, of store]
    unfolding e3 f a tag_def .
  have wf3: "well_formed e3" and miss3: "check_tag e3 addr = None"
    using wf miss by (simp_all add: e3_def)
  have g: "lfsr e3 = lfsr e" "tags e3 = tags e" "fa_tags e3 = fa_tags e" "ways e3 = ways e"
    "sets e3 = sets e" "idx_shift e3 = idx_shift e" "variant e3 = variant e"
    by (simp_all add: e3_def)
  note vr = victimize_result [OF wf3 miss3, unfolded g]
  have V: "victimize e3 addr = Inr (victim, e4) \<and> check_tag e4 addr = Some p \<and>
      (variant e = Set_Associative \<longrightarrow> i < length (tags e) \<and> victim = slot_get e p) \<and>
      (variant e = Fully_Associative \<and> full \<longrightarrow> unat way < length (fa_tags e))"
  proof (cases "variant e")
    case Set_Associative
    with vr(1) show ?thesis
      by (simp add: victim_def e4_def p_def tag_def way_def i_def slot_get_def)
  next
    case Fully_Associative
    show ?thesis
    proof (cases full)
      case True
      with Fully_Associative vr(2) show ?thesis
        by (simp add: victim_def e4_def p_def tag_def way_def full_def)
    next
      case False
      with Fully_Associative vr(3) show ?thesis
        by (simp add: victim_def e4_def p_def tag_def way_def full_def)
    qed
  qed
  from R obtain victim' e4' p' where
    r: "victimize e3 addr = Inr (victim', e4')" "check_tag e4' addr = Some p'"
      "slot_get e4' p' = tag OR VALID"
    and l: "(let wb = (victim' AND (VALID OR DIRTY) = (VALID OR DIRTY));
          dirty_addr = push_bit (unat (idx_shift e)) (victim' AND NOT (VALID OR DIRTY));
          e5 = e4'\<lparr> writebacks := writebacks e + (if wb then 1 else 0) \<rparr>;
          e' = (if store then slot_set p' (tag OR VALID OR DIRTY) e5 else e5)
      in access e addr bytes store =
           Inr (e',
             (if log e then [Log_Miss (name e) store addr] else []) @
             (if wb \<and> miss_handler e \<noteq> None
              then [Miss_Handler_Access dirty_addr (linesz e) True] else []) @
             (if miss_handler e \<noteq> None
              then [Miss_Handler_Access (addr AND NOT (linesz e - 1)) (linesz e) False] else [])) \<and>
         check_tag e' addr = Some p' \<and>
         slot_get e' p' = (if store then tag OR VALID OR DIRTY else tag OR VALID) \<and>
         dirty_addr AND (linesz e - 1) = 0 \<and>
         (\<forall>a. victim' AND NOT DIRTY = drop_bit (unat (idx_shift e)) a OR VALID \<longrightarrow>
              dirty_addr = a AND NOT (linesz e - 1)))"
    by blast
  from r(1) V have eq: "victim' = victim" "e4' = e4"
    by simp_all
  with r(2) V have eqp: "p' = p"
    by simp
  note l' = l [unfolded Let_def eq eqp, folded wb_def dirty_addr_def, folded e5_def, folded e'_def]
  have wbk: "writebacks e' = writebacks e + (if wb then 1 else 0)"
    by (simp add: e'_def e5_def)
  show ?thesis
    using V r(3) [unfolded eq eqp] l' wbk by blast
qed

text \<open>
  Two instances. In the engine of \<open>"4:2:64"\<close> after a store to address 0, a store to
  \<open>0x100\<close> misses and evicts entry 1, which held line 0 valid and dirty: one writeback of
  line 0, then the fetch of line \<open>0x100\<close>. In the full engine of \<open>"1:8:64"\<close> a read of
  address 512 misses and evicts the node of key 1, valid and clean: no writeback.
\<close>

theorem access_on_miss_witness:
  "construct ''4:2:64'' ''D$'' = Inr engine_4_2_64 \<and> ways engine_4_2_64 \<noteq> 0 \<and>
   run engine_4_2_64 [Set_Miss_Handler (Some 1), Set_Log True, Access 0 1 True] =
     Some engine_4_2_64_dirty \<and>
   check_tag engine_4_2_64_dirty 0x100 = None \<and>
   variant engine_4_2_64_dirty = Set_Associative \<and>
   slot_get engine_4_2_64_dirty (Array_Entry 1) = 0xC000000000000000 \<and>
   victimize (engine_4_2_64_dirty\<lparr> write_accesses := 2, bytes_written := 9,
                write_misses := 2 \<rparr>) 0x100 =
     Inr (0xC000000000000000,
          engine_4_2_64_dirty\<lparr> lfsr := 0xB8000001,
            tags := [0, 0x8000000000000004, 0, 0, 0, 0, 0, 0],
            write_accesses := 2, write_misses := 2, bytes_written := 9 \<rparr>) \<and>
   access engine_4_2_64_dirty 0x100 8 True =
     Inr (engine_4_2_64_dirty\<lparr> lfsr := 0xB8000001,
            tags := [0, 0xC000000000000004, 0, 0, 0, 0, 0, 0],
            write_accesses := 2, write_misses := 2, bytes_written := 9, writebacks := 1 \<rparr>,
          [Log_Miss ''D$'' True 0x100, Miss_Handler_Access 0 64 True,
           Miss_Handler_Access 0x100 64 False]) \<and>
   construct ''1:8:64'' ''D$'' = Inr engine_1_8_64 \<and> ways engine_1_8_64 \<noteq> 0 \<and>
   run engine_1_8_64 [Access 0 1 False, Access 64 1 False, Access 128 1 False, Access 192 1 False,
       Access 256 1 False, Access 320 1 False, Access 384 1 False, Access 448 1 False] =
     Some engine_1_8_64_full \<and>
   check_tag engine_1_8_64_full 512 = None \<and>
   variant engine_1_8_64_full = Fully_Associative \<and>
   length (fa_tags engine_1_8_64_full) = unat (ways engine_1_8_64_full) \<and>
   access engine_1_8_64_full 512 4 False =
     Inr (engine_1_8_64_full\<lparr> lfsr := 0xD0000001,
            read_accesses := 9, read_misses := 9, bytes_read := 12,
            fa_tags := [(0, 0x8000000000000000), (2, 0x8000000000000002),
                   (3, 0x8000000000000003), (4, 0x8000000000000004), (5, 0x8000000000000005),
                   (6, 0x8000000000000006), (7, 0x8000000000000007), (8, 0x8000000000000008)] \<rparr>,
          [])"
proof -
  have w: "ways engine_4_2_64 \<noteq> 0" "ways engine_1_8_64 \<noteq> 0"
    by (simp_all add: engine_4_2_64_def engine_1_8_64_def)
  have m: "check_tag engine_4_2_64_dirty 0x100 = None"
    by (simp add: eval_defs engine_4_2_64_def engine_4_2_64_dirty_def check_tag_ways.simps)
  have m': "check_tag engine_1_8_64_full 512 = None"
    by (simp add: eval_defs engine_1_8_64_def engine_1_8_64_full_def)
  have s: "variant engine_4_2_64_dirty = Set_Associative"
    "slot_get engine_4_2_64_dirty (Array_Entry 1) = 0xC000000000000000"
    "variant engine_1_8_64_full = Fully_Associative"
    "length (fa_tags engine_1_8_64_full) = unat (ways engine_1_8_64_full)"
    by (simp_all add: slot_get_def engine_4_2_64_def engine_4_2_64_dirty_def
        engine_1_8_64_def engine_1_8_64_full_def)
  note t1 = access_on_miss [OF construct_4_2_64 w(1) run_dirty_4_2_64 m,
      where bytes = 8 and store = True]
  note t2 = access_on_miss [OF construct_1_8_64 w(2) run_fill_1_8_64 m',
      where bytes = 4 and store = False]
  have v: "victimize (engine_4_2_64_dirty\<lparr> write_accesses := 2, bytes_written := 9,
                write_misses := 2 \<rparr>) 0x100 =
     Inr (0xC000000000000000,
          engine_4_2_64_dirty\<lparr> lfsr := 0xB8000001,
            tags := [0, 0x8000000000000004, 0, 0, 0, 0, 0, 0],
            write_accesses := 2, write_misses := 2, bytes_written := 9 \<rparr>)"
    using t1 [THEN conjunct1]
    by (simp add: engine_4_2_64_def engine_4_2_64_dirty_def lfsr_next_def VALID_def Let_def)
  have a: "access engine_4_2_64_dirty 0x100 8 True =
     Inr (engine_4_2_64_dirty\<lparr> lfsr := 0xB8000001,
            tags := [0, 0xC000000000000004, 0, 0, 0, 0, 0, 0],
            write_accesses := 2, write_misses := 2, bytes_written := 9, writebacks := 1 \<rparr>,
          [Log_Miss ''D$'' True 0x100, Miss_Handler_Access 0 64 True,
           Miss_Handler_Access 0x100 64 False])"
    using t1 [THEN conjunct2, THEN conjunct2, THEN conjunct2, THEN conjunct2, THEN conjunct2,
        THEN conjunct1]
    by (simp add: engine_4_2_64_def engine_4_2_64_dirty_def lfsr_next_def VALID_def DIRTY_def
        Let_def slot_set_def)
  have b: "access engine_1_8_64_full 512 4 False =
     Inr (engine_1_8_64_full\<lparr> lfsr := 0xD0000001,
            read_accesses := 9, read_misses := 9, bytes_read := 12,
            fa_tags := [(0, 0x8000000000000000), (2, 0x8000000000000002),
                   (3, 0x8000000000000003), (4, 0x8000000000000004), (5, 0x8000000000000005),
                   (6, 0x8000000000000006), (7, 0x8000000000000007), (8, 0x8000000000000008)] \<rparr>,
          [])"
    using t2 [THEN conjunct2, THEN conjunct2, THEN conjunct2, THEN conjunct2, THEN conjunct2,
        THEN conjunct1]
    by (simp add: engine_1_8_64_def engine_1_8_64_full_def lfsr_next_def VALID_def DIRTY_def
        Let_def map_erase_at_def)
  show ?thesis
    by (intro conjI construct_4_2_64 construct_1_8_64 w run_dirty_4_2_64 run_fill_1_8_64
        m m' s v a b)
qed

section \<open>Which configuration strings construct an engine\<close>

text \<open>
  C1, as amended. Take a configuration string with two colon separators, whose three
  fields \<open>atoi\<close> reads as the integers \<open>sets\<close>, \<open>ways\<close> and \<open>lineSize\<close> (each within
  \<open>int\<close>). If \<open>sets\<close> is a power of two, \<open>lineSize\<close> is a power of two and at least 8,
  \<open>ways\<close> is at least 1 and the array of \<open>sets*ways\<close> entries can be allocated, then
  construction succeeds and returns an engine of that geometry. If \<open>sets\<close> is not a
  power of two, or \<open>lineSize\<close> is not a power of two or is below 8, construction is
  rejected with the usage diagnostic, so no access executes. A string with fewer than
  two colons is rejected in the same way. A field is read as \<open>atoi\<close> reads it: what
  follows its leading number is ignored, and a field with no leading number reads as 0.
\<close>

theorem construct_accepts_and_rejects:
  fixes S W L :: string and s w l :: int
  assumes "CHR '':'' \<notin> set S" and "CHR '':'' \<notin> set W"
    and "atoi S = Some s" and "atoi W = Some w" and "atoi L = Some l"
  defines "config \<equiv> S @ CHR '':'' # W @ CHR '':'' # L"
    and "sets' \<equiv> (word_of_int s :: u64)"
    and "ways' \<equiv> (word_of_int w :: u64)"
    and "linesz' \<equiv> (word_of_int l :: u64)"
  shows "(is_pow2 sets' \<and> is_pow2 linesz' \<and> 8 \<le> linesz' \<and> 1 \<le> w \<and> sets' * ways' < 2 ^ 60 \<longrightarrow>
            (\<exists>e. construct config nm = Inr e \<and> sets e = sets' \<and> ways e = ways' \<and>
                 linesz e = linesz' \<and> well_formed e)) \<and>
         (\<not> is_pow2 sets' \<or> \<not> is_pow2 linesz' \<or> linesz' < 8 \<longrightarrow>
            construct config nm = Inl Usage_Exit) \<and>
         (\<forall>c. length (filter (\<lambda>x. x = CHR '':'') c) < 2 \<longrightarrow> construct c nm = Inl Usage_Exit)"
proof -
  let ?dyn = "if 4 < ways' \<and> sets' = 1 then Fully_Associative else Set_Associative"
  let ?sets = "if 4 < ways' \<and> sets' = 1 then 1 else sets'"
  have c: "construct config nm = init ?dyn ?sets ways' linesz' nm"
    unfolding config_def construct_fields [OF assms(1,2)]
    by (simp add: assms(3,4,5) sets'_def ways'_def linesz'_def fa_cache_sim_t_def cache_sim_t_def)
  have same: "?sets = sets'"
    by simp
  have acc: "\<exists>e. construct config nm = Inr e \<and> sets e = sets' \<and> ways e = ways' \<and>
                 linesz e = linesz' \<and> well_formed e"
    if h: "is_pow2 sets'" "is_pow2 linesz'" "8 \<le> linesz'" "1 \<le> w" "sets' * ways' < 2 ^ 60"
  proof -
    have t: "sets' \<noteq> 0 \<and> sets' AND (sets' - 1) = 0" "linesz' \<noteq> 0 \<and> linesz' AND (linesz' - 1) = 0"
      using h(1,2) pow2_test_iff by blast+
    have "\<not> linesz' < 8"
      using h(3) by (simp add: not_less)
    with t h(5) obtain e where e: "init ?dyn sets' ways' linesz' nm = Inr e"
      by (simp add: init_def new_array_def)
    with c same have ce: "construct config nm = Inr e"
      by simp
    have "ways' \<noteq> 0"
      unfolding ways'_def using h(4) atoi_range [OF assms(4)] by (intro word_of_int_pos_neq_0) simp_all
    with init_Inr [OF e] have "ways e \<noteq> 0"
      by simp
    with ce have "well_formed e"
      by (rule construct_well_formed)
    with ce init_Inr [OF e] show ?thesis
      by simp
  qed
  have rej: "construct config nm = Inl Usage_Exit"
    if h: "\<not> is_pow2 sets' \<or> \<not> is_pow2 linesz' \<or> linesz' < 8"
  proof -
    have "linesz' = 0 \<longrightarrow> linesz' < 8"
      by auto
    then have "(sets' = 0 \<or> sets' AND (sets' - 1) \<noteq> 0) \<or> (linesz' < 8 \<or> linesz' AND (linesz' - 1) \<noteq> 0)"
      using h pow2_test_iff [of sets'] pow2_test_iff [of linesz'] by blast
    then have "init ?dyn sets' ways' linesz' nm = Inl Usage_Exit"
      by (auto simp: init_def)
    with c same show ?thesis
      by simp
  qed
  show ?thesis
    using acc rej construct_missing_separator by blast
qed


theorem construct_accepts_and_rejects_witness:
  "CHR '':'' \<notin> set ''16'' \<and> CHR '':'' \<notin> set ''4'' \<and>
   atoi ''16'' = Some 16 \<and> atoi ''4'' = Some 4 \<and> atoi ''64'' = Some 64 \<and>
   is_pow2 16 \<and> is_pow2 64 \<and> (8 :: u64) \<le> 64 \<and> (1 :: int) \<le> 4 \<and> (16 * 4 :: u64) < 2 ^ 60 \<and>
   (\<exists>e. construct ''16:4:64'' ''D$'' = Inr e \<and> sets e = 16 \<and> ways e = 4 \<and> linesz e = 64 \<and>
        well_formed e) \<and>
   CHR '':'' \<notin> set ''12'' \<and> atoi ''12'' = Some 12 \<and> \<not> is_pow2 12 \<and>
   construct ''12:4:64'' ''D$'' = Inl Usage_Exit \<and>
   length (filter (\<lambda>x. x = CHR '':'') ''16:64'') < 2 \<and>
   construct ''16:64'' ''D$'' = Inl Usage_Exit"
proof -
  have f: "CHR '':'' \<notin> set ''16''" "CHR '':'' \<notin> set ''4''" "CHR '':'' \<notin> set ''12''"
    by simp_all
  have a: "atoi ''16'' = Some 16" "atoi ''4'' = Some 4" "atoi ''64'' = Some 64" "atoi ''12'' = Some 12"
    by (simp_all add: atoi_def isspace_def isdigit_def Let_def)
  have p: "is_pow2 16" "is_pow2 64" "\<not> is_pow2 12"
    using pow2_test_iff [of 16] pow2_test_iff [of 64] pow2_test_iff [of 12] by simp_all
  have n: "length (filter (\<lambda>x. x = CHR '':'') ''16:64'') < 2"
    by simp
  note t1 = construct_accepts_and_rejects [OF f(1,2) a(1,2,3), where nm = "''D$''"]
  note t2 = construct_accepts_and_rejects [OF f(3,2) a(4,2,3), where nm = "''D$''"]
  have 1: "\<exists>e. construct ''16:4:64'' ''D$'' = Inr e \<and> sets e = 16 \<and> ways e = 4 \<and> linesz e = 64 \<and>
        well_formed e"
    using t1 p by simp
  have 2: "construct ''12:4:64'' ''D$'' = Inl Usage_Exit"
    using t2 p by simp
  have 3: "construct ''16:64'' ''D$'' = Inl Usage_Exit"
    using t1 n by blast
  show ?thesis
    using f a p n 1 2 3 by simp
qed

text \<open>
  C1 as stated says that every non-numeric field is rejected. The field \<open>2x\<close> is not a
  decimal integer, yet \<open>"4:2x:64"\<close> constructs the engine of \<open>"4:2:64"\<close>.
\<close>

theorem construct_accepts_non_numeric_field:
  "construct ''4:2x:64'' ''D$'' = Inr engine_4_2_64 \<and>
   construct ''4:2x:64'' ''D$'' \<noteq> Inl Usage_Exit"
  by (simp add: construct_def atoi_def isspace_def isdigit_def cache_sim_t_def init_def
      new_array_def replicate_8 lfsr_t_def engine_4_2_64_def Let_def)

text \<open>
  The code has no check of \<open>ways\<close>: \<open>"4:0:64"\<close>, and \<open>"4:abc:64"\<close> which reads as it,
  construct an engine with no way, on which the first missing access divides by zero.
\<close>

lemma construct_accepts_zero_ways:
  "construct ''4:0:64'' ''D$'' = Inr (engine_4_2_64\<lparr> ways := 0, tags := [] \<rparr>) \<and>
   construct ''4:abc:64'' ''D$'' = Inr (engine_4_2_64\<lparr> ways := 0, tags := [] \<rparr>) \<and>
   access (engine_4_2_64\<lparr> ways := 0, tags := [] \<rparr>) 0 1 False = Inl Divide_By_Zero"
  by (simp add: construct_def atoi_def isspace_def isdigit_def cache_sim_t_def init_def
      new_array_def lfsr_t_def engine_4_2_64_def Let_def eval_defs check_tag_ways.simps)

section \<open>Cleaning and invalidating a range\<close>

text \<open>
  C6. The claim: \<open>clean_invalidate(addr, bytes, clean, inval)\<close> visits every line-aligned
  address of the range covering \<open>[addr, addr + bytes)\<close>, and with \<open>clean\<close> true it counts
  one writeback and clears DIRTY for each resident dirty line. The function computes
  \<open>end_addr = (addr + bytes + linesz-1) & ~(linesz-1)\<close> in 64-bit arithmetic, which
  wraps around when the range ends in the last line of the address space. Here the
  engine of \<open>"4:2:64"\<close> stores one byte at \<open>0xFFFFFFFFFFFFFFC1\<close>; the line of that byte is
  then resident, with VALID and DIRTY set, in entry 7. The call
  \<open>clean_invalidate(0xFFFFFFFFFFFFFFC1, 1, true, false)\<close> computes
  \<open>start_addr = 0xFFFFFFFFFFFFFFC0\<close> and \<open>end_addr = 0\<close>, so the loop condition
  \<open>cur_addr < end_addr\<close> fails at once and the call returns the engine unchanged: the
  line of the byte is not visited, \<open>writebacks\<close> stays 0 and DIRTY stays set.
\<close>

theorem clean_invalidate_skips_top_line:
  "construct ''4:2:64'' ''D$'' = Inr engine_4_2_64 \<and>
   run engine_4_2_64 [Access 0xFFFFFFFFFFFFFFC1 1 True] = Some engine_4_2_64_top \<and>
   check_tag engine_4_2_64_top 0xFFFFFFFFFFFFFFC1 = Some (Array_Entry 7) \<and>
   slot_get engine_4_2_64_top (Array_Entry 7) = 0xC3FFFFFFFFFFFFFF \<and>
   slot_get engine_4_2_64_top (Array_Entry 7) AND VALID = VALID \<and>
   slot_get engine_4_2_64_top (Array_Entry 7) AND DIRTY = DIRTY \<and>
   resident_dirty engine_4_2_64_top 0xFFFFFFFFFFFFFFC1 \<and>
   0xFFFFFFFFFFFFFFC1 AND NOT (linesz engine_4_2_64_top - 1) = 0xFFFFFFFFFFFFFFC0 \<and>
   (0xFFFFFFFFFFFFFFC1 + 1 + linesz engine_4_2_64_top - 1) AND NOT (linesz engine_4_2_64_top - 1)
     = 0 \<and>
   clean_invalidate engine_4_2_64_top 0xFFFFFFFFFFFFFFC1 1 True False =
     Some (engine_4_2_64_top, []) \<and>
   writebacks engine_4_2_64_top = 0"
proof -
  have 1: "check_tag engine_4_2_64_top 0xFFFFFFFFFFFFFFC1 = Some (Array_Entry 7)"
    by (simp add: eval_defs engine_4_2_64_def engine_4_2_64_top_def check_tag_ways.simps)
  have 2: "slot_get engine_4_2_64_top (Array_Entry 7) = 0xC3FFFFFFFFFFFFFF"
    by (simp add: slot_get_def engine_4_2_64_def engine_4_2_64_top_def)
  have 3: "slot_get engine_4_2_64_top (Array_Entry 7) AND VALID = VALID"
    "slot_get engine_4_2_64_top (Array_Entry 7) AND DIRTY = DIRTY"
    unfolding 2 by (simp_all add: VALID_def DIRTY_def)
  have 4: "resident_dirty engine_4_2_64_top 0xFFFFFFFFFFFFFFC1"
    unfolding resident_dirty_def 1 option.case 3 by (simp add: VALID_def DIRTY_def)
  have 5: "0xFFFFFFFFFFFFFFC1 AND NOT (linesz engine_4_2_64_top - 1) = 0xFFFFFFFFFFFFFFC0"
    "(0xFFFFFFFFFFFFFFC1 + 1 + linesz engine_4_2_64_top - 1) AND NOT (linesz engine_4_2_64_top - 1)
       = 0"
    by (simp_all add: engine_4_2_64_def engine_4_2_64_top_def)
  have 6: "clean_invalidate engine_4_2_64_top 0xFFFFFFFFFFFFFFC1 1 True False =
     Some (engine_4_2_64_top, [])"
    by (simp add: clean_invalidate_def Let_def engine_4_2_64_def engine_4_2_64_top_def
        clean_invalidate_loop.simps)
  have 7: "writebacks engine_4_2_64_top = 0"
    by (simp add: engine_4_2_64_def engine_4_2_64_top_def)
  show ?thesis
    by (intro conjI construct_4_2_64 run_top_4_2_64 1 2 3 4 5 6 7)
qed

text \<open>
  In the fully-associative engine the lookup does not test VALID, so the loop also counts
  a writeback for an entry that is not resident: after a store to address 0 and an
  invalidate of its line, the node of line 0 has VALID clear and DIRTY set, and cleaning
  the line counts one writeback.
\<close>

lemma clean_invalidate_counts_invalid_entry:
  "construct ''1:8:64'' ''D$'' = Inr engine_1_8_64 \<and>
   run engine_1_8_64 [Access 0 1 True, Clean_Invalidate 0 1 False True] =
     Some engine_1_8_64_invalidated \<and>
   check_tag engine_1_8_64_invalidated 0 = Some (Map_Entry 0) \<and>
   slot_get engine_1_8_64_invalidated (Map_Entry 0) AND VALID = 0 \<and>
   hit_dirty engine_1_8_64_invalidated 0 \<and>
   \<not> resident_dirty engine_1_8_64_invalidated 0 \<and>
   clean_invalidate engine_1_8_64_invalidated 0 1 True False =
     Some (engine_1_8_64_invalidated\<lparr> fa_tags := [(0, 0)], writebacks := 1 \<rparr>, [])"
proof -
  have 1: "check_tag engine_1_8_64_invalidated 0 = Some (Map_Entry 0)"
    by (simp add: eval_defs engine_1_8_64_def engine_1_8_64_invalidated_def)
  have 2: "slot_get engine_1_8_64_invalidated (Map_Entry 0) = 0x4000000000000000"
    by (simp add: slot_get_def engine_1_8_64_def engine_1_8_64_invalidated_def)
  have 3: "slot_get engine_1_8_64_invalidated (Map_Entry 0) AND VALID = 0"
    unfolding 2 by (simp add: VALID_def)
  have 4: "hit_dirty engine_1_8_64_invalidated 0"
    unfolding hit_dirty_def 1 option.case 2 by (simp add: DIRTY_def)
  have 5: "\<not> resident_dirty engine_1_8_64_invalidated 0"
    unfolding resident_dirty_def 1 option.case 3 by simp
  have 6: "clean_invalidate engine_1_8_64_invalidated 0 1 True False =
     Some (engine_1_8_64_invalidated\<lparr> fa_tags := [(0, 0)], writebacks := 1 \<rparr>, [])"
    by (simp add: eval_defs engine_1_8_64_def engine_1_8_64_invalidated_def
        clean_invalidate_loop.simps)
  show ?thesis
    by (intro conjI construct_1_8_64 run_invalidated_1_8_64 1 3 4 5 6)
qed

end
